theory Spec2Isabelle
  imports Complex_Main "HOL-Library.Multiset" "HOL-Library.Sublist"
begin

section \<open>PyFrame: artists and the canvas (src/PyFrame/pyframe.py)\<close>

text \<open>
  Python objects are mutable and shared: the canvas keeps references to artist objects
  that the caller may still hold and change (the example driver toggles and deactivates
  artists it has registered). The model therefore has two layers. The methods of the
  artist classes are functions on a record of the object's attributes; the canvas works
  on a store that maps references to such records, and its list of artists is a list of
  references.

  The draw callback is user code that receives the axes; it is modelled as a function
  from axes to axes, which is all a callback "that draws something on it" does. Calls into
  the plotting library are kept in a log of events. Two of these calls have an error
  path here, because the canvas is left in a state of its own when they raise:
  \<open>plt.figure\<close> in the constructor, which refuses some sizes and resolutions, and
  \<open>fig.savefig\<close>, which fails when the file cannot be written. Whether such a call
  raised, and what, is an argument of the function that makes the call, as the random
  identifier is. The callbacks and the other calls of the library are taken to return
  normally.
\<close>

subsection \<open>The drawing surface and the plotting library\<close>

record 'd axes =
  items :: "'d list"
  xlim :: "real \<times> real"
  ylim :: "real \<times> real"

datatype 'd event =
    Plt_figure int int int
  | Plt_draw
  | Plt_show
  | Savefig string "'d axes"

datatype error = AttributeError | TypeError | ValueError | OSError

subsection \<open>The artist classes\<close>

text \<open>
  The four classes share the attributes of \<open>Artist\<close>; the attributes a subclass adds are
  the arguments of its constructor in \<open>variant\<close>. The names \<open>id\<close>, \<open>end\<close> and \<open>when\<close>
  are taken in Isabelle, hence \<open>id_str\<close> and the argument names below.
\<close>

datatype variant =
    Artist
  | TimedArtist int int        \<comment> \<open>start, end\<close>
  | ToggledArtist string       \<comment> \<open>state\<close>
  | OneTimeArtist bool int     \<comment> \<open>drawn, when\<close>

record 'd artist =
  id_str :: string
  artist_factory :: "'d axes \<Rightarrow> 'd axes"
  layer :: int
  deactivated :: bool
  variant :: variant

text \<open>
  The constructors. The identifier is ten letters drawn at random by numpy; the drawn
  token is a parameter here.
\<close>

definition Artist_init :: "string \<Rightarrow> ('d axes \<Rightarrow> 'd axes) \<Rightarrow> int \<Rightarrow> 'd artist" where
  "Artist_init rid f lay =
     \<lparr>id_str = rid, artist_factory = f, layer = lay, deactivated = False, variant = Artist\<rparr>"

definition TimedArtist_init ::
  "string \<Rightarrow> ('d axes \<Rightarrow> 'd axes) \<Rightarrow> int \<Rightarrow> int \<Rightarrow> int \<Rightarrow> 'd artist" where
  "TimedArtist_init rid f start end_fr lay =
     (Artist_init rid f lay)\<lparr>variant := TimedArtist start end_fr\<rparr>"

definition ToggledArtist_init ::
  "string \<Rightarrow> ('d axes \<Rightarrow> 'd axes) \<Rightarrow> string \<Rightarrow> int \<Rightarrow> 'd artist" where
  "ToggledArtist_init rid f state lay =
     (Artist_init rid f lay)\<lparr>variant := ToggledArtist state\<rparr>"

definition OneTimeArtist_init ::
  "string \<Rightarrow> ('d axes \<Rightarrow> 'd axes) \<Rightarrow> int \<Rightarrow> int \<Rightarrow> 'd artist" where
  "OneTimeArtist_init rid f when_fr lay =
     (Artist_init rid f lay)\<lparr>variant := OneTimeArtist False when_fr\<rparr>"

text \<open>
  The methods, one function each; the case distinction on the class is Python's dynamic
  dispatch. \<open>draw\<close> returns the object, the axes and the library log, all of which it
  may change.
\<close>

definition draw ::
  "'d artist \<Rightarrow> 'd axes \<Rightarrow> 'd event list \<Rightarrow> 'd artist \<times> 'd axes \<times> 'd event list" where
  "draw self axs plt =
     (case variant self of
        OneTimeArtist drawn when_fr \<Rightarrow>
          (self\<lparr>variant := OneTimeArtist True when_fr\<rparr>, artist_factory self axs, plt @ [Plt_draw])
      | _ \<Rightarrow> (self, artist_factory self axs, plt @ [Plt_draw]))"

definition deactivate :: "'d artist \<Rightarrow> 'd artist" where
  "deactivate self = self\<lparr>deactivated := True\<rparr>"

definition isActive :: "'d artist \<Rightarrow> int \<Rightarrow> bool" where
  "isActive self frame_counter =
     (case variant self of
        Artist \<Rightarrow> \<not> deactivated self
      | TimedArtist start end_fr \<Rightarrow>
          frame_counter \<ge> start \<and> frame_counter \<le> end_fr \<and> \<not> deactivated self
      | ToggledArtist state \<Rightarrow> state = ''active'' \<and> \<not> deactivated self
      | OneTimeArtist drawn when_fr \<Rightarrow> frame_counter = when_fr \<and> \<not> deactivated self)"

definition isDone :: "'d artist \<Rightarrow> int \<Rightarrow> bool" where
  "isDone self frame_counter =
     (case variant self of
        Artist \<Rightarrow> deactivated self
      | TimedArtist start end_fr \<Rightarrow> frame_counter > end_fr \<or> deactivated self
      | ToggledArtist state \<Rightarrow> deactivated self
      | OneTimeArtist drawn when_fr \<Rightarrow> drawn \<or> deactivated self)"

text \<open>\<open>toggle\<close> exists on \<open>ToggledArtist\<close> only; on another artist the attribute lookup fails.\<close>

definition toggle :: "'d artist \<Rightarrow> error + 'd artist" where
  "toggle self =
     (case variant self of
        ToggledArtist state \<Rightarrow>
          Inr (self\<lparr>variant :=
                 ToggledArtist (if state = ''inactive'' then ''active'' else ''inactive'')\<rparr>)
      | _ \<Rightarrow> Inl AttributeError)"

text \<open>
  \<open>__eq__\<close> reads \<open>other.id\<close>. The other operand is any Python object: an artist, or an
  object given by its attributes, whose \<open>id\<close> attribute may be missing.
\<close>

datatype pyval = PyStr string | PyInt int | PyBool bool | PyNone

datatype 'd pyobj = ArtistObj "'d artist" | Object "(string \<times> pyval) list"

definition getattr_id :: "'d pyobj \<Rightarrow> error + pyval" where
  "getattr_id other =
     (case other of
        ArtistObj a \<Rightarrow> Inr (PyStr (id_str a))
      | Object attrs \<Rightarrow>
          (case map_of attrs ''id'' of None \<Rightarrow> Inl AttributeError | Some v \<Rightarrow> Inr v))"

definition artist_eq :: "'d artist \<Rightarrow> 'd pyobj \<Rightarrow> error + bool" where
  "artist_eq self other =
     (case getattr_id other of Inl e \<Rightarrow> Inl e | Inr v \<Rightarrow> Inr (PyStr (id_str self) = v))"

text \<open>Decimal numerals, for \<open>%d\<close> and for the frame number in a file name.\<close>

fun str_nat :: "nat \<Rightarrow> string" where
  "str_nat n =
     (if n < 10 then [''0123456789'' ! n]
      else str_nat (n div 10) @ [''0123456789'' ! (n mod 10)])"

declare str_nat.simps [simp del]

definition str_int :: "int \<Rightarrow> string" where
  "str_int i = (if i < 0 then CHR ''-'' # str_nat (nat (- i)) else str_nat (nat i))"

definition str_bool :: "bool \<Rightarrow> string" where
  "str_bool b = (if b then ''True'' else ''False'')"

definition artist_str :: "'d artist \<Rightarrow> string" where
  "artist_str self =
     (case variant self of
        Artist \<Rightarrow> ''Artist: '' @ id_str self
      | TimedArtist start end_fr \<Rightarrow>
          ''TimedArtist: '' @ id_str self @ '', start: '' @ str_int start
            @ '', end: '' @ str_int end_fr
      | ToggledArtist state \<Rightarrow> ''ToggledArtist: '' @ id_str self @ '', state: '' @ state
      | OneTimeArtist drawn when_fr \<Rightarrow>
          ''OneTimeArtist: '' @ id_str self @ '', drawn: '' @ str_bool drawn)"

subsection \<open>The store and the canvas\<close>

text \<open>
  A reference is an address of the store. \<open>next_ref\<close> is the first address not yet handed
  out: the objects that exist are those below it. The other fields are the attributes of
  the canvas (\<open>fig\<close> lives in the library; what is saved from it is logged in \<open>plt\<close>).
\<close>

type_synonym ref = nat

record 'd world =
  heap :: "ref \<Rightarrow> 'd artist"
  next_ref :: ref
  frame_counter :: int
  xlims :: "real \<times> real"
  ylims :: "real \<times> real"
  ax :: "'d axes"
  artists :: "ref list"
  plt :: "'d event list"

text \<open>
  The constructor, given the store and the library log as they are when it is called.
  \<open>plt.figure\<close> refuses a negative width or height with a \<open>ValueError\<close>. What it did
  with any other size and resolution is \<open>figure_raises\<close>: \<open>None\<close> when it returned the
  figure, the error when it raised. When it raises there is no canvas.
\<close>

definition Canvas_init ::
  "error option \<Rightarrow> (ref \<Rightarrow> 'd artist) \<Rightarrow> ref \<Rightarrow> 'd event list \<Rightarrow> int \<Rightarrow> int
     \<Rightarrow> real \<times> real \<Rightarrow> real \<times> real \<Rightarrow> int \<Rightarrow> error + 'd world" where
  "Canvas_init figure_raises h n lib width height xl yl dpi =
     (if width < 0 \<or> height < 0 then Inl ValueError
      else case figure_raises of
        Some e \<Rightarrow> Inl e
      | None \<Rightarrow>
          Inr \<lparr>heap = h, next_ref = n, frame_counter = 1, xlims = xl, ylims = yl,
               ax = \<lparr>items = [], xlim = xl, ylim = yl\<rparr>, artists = [],
               plt = lib @ [Plt_figure width height dpi]\<rparr>)"

text \<open>
  Calling a class: the keyword arguments a caller may pass, with \<open>kw_other\<close> the names of
  any further ones. A required argument that is missing and a keyword the constructor
  does not know are a \<open>TypeError\<close>, raised before anything is constructed.
\<close>

datatype cls = ArtistC | TimedArtistC | ToggledArtistC | OneTimeArtistC

record kwargs =
  kw_layer :: "int option"
  kw_start :: "int option"
  kw_end :: "int option"
  kw_state :: "string option"
  kw_when :: "int option"
  kw_other :: "string list"

definition or_default :: "'a \<Rightarrow> 'a option \<Rightarrow> 'a" where
  "or_default d v = (case v of None \<Rightarrow> d | Some x \<Rightarrow> x)"

definition call_cls ::
  "cls \<Rightarrow> string \<Rightarrow> ('d axes \<Rightarrow> 'd axes) \<Rightarrow> kwargs \<Rightarrow> error + 'd artist" where
  "call_cls c rid f kw =
     (if kw_other kw \<noteq> [] then Inl TypeError
      else case c of
        ArtistC \<Rightarrow>
          (if kw_start kw \<noteq> None \<or> kw_end kw \<noteq> None \<or> kw_state kw \<noteq> None \<or> kw_when kw \<noteq> None
           then Inl TypeError
           else Inr (Artist_init rid f (or_default 0 (kw_layer kw))))
      | TimedArtistC \<Rightarrow>
          (if kw_state kw \<noteq> None \<or> kw_when kw \<noteq> None then Inl TypeError
           else case (kw_start kw, kw_end kw) of
             (Some s, Some e) \<Rightarrow> Inr (TimedArtist_init rid f s e (or_default 0 (kw_layer kw)))
           | _ \<Rightarrow> Inl TypeError)
      | ToggledArtistC \<Rightarrow>
          (if kw_start kw \<noteq> None \<or> kw_end kw \<noteq> None \<or> kw_when kw \<noteq> None then Inl TypeError
           else case kw_state kw of
             Some st \<Rightarrow> Inr (ToggledArtist_init rid f st (or_default 0 (kw_layer kw)))
           | None \<Rightarrow> Inl TypeError)
      | OneTimeArtistC \<Rightarrow>
          (if kw_start kw \<noteq> None \<or> kw_end kw \<noteq> None \<or> kw_state kw \<noteq> None then Inl TypeError
           else Inr (OneTimeArtist_init rid f (or_default 0 (kw_when kw)) (or_default 0 (kw_layer kw)))))"

text \<open>A new object takes the next address.\<close>

definition alloc :: "'d artist \<Rightarrow> 'd world \<Rightarrow> 'd world" where
  "alloc a w = w\<lparr>heap := (heap w)(next_ref w := a), next_ref := Suc (next_ref w)\<rparr>"

text \<open>
  \<open>list.sort(key=...)\<close> is a stable ascending sort. The result of a stable sort is
  determined by its input, so the library's stable insertion sort \<open>sort_key\<close> computes it.
\<close>

definition addArtist :: "ref \<Rightarrow> 'd world \<Rightarrow> 'd world" where
  "addArtist artist w =
     (let appended = artists w @ [artist]
      in w\<lparr>artists := sort_key (\<lambda>r. layer (heap w r)) appended\<rparr>)"

definition addArtistFactory ::
  "('d axes \<Rightarrow> 'd axes) \<Rightarrow> cls \<Rightarrow> kwargs \<Rightarrow> string \<Rightarrow> 'd world \<Rightarrow> error + 'd world" where
  "addArtistFactory f c kw rid w =
     (case call_cls c rid f kw of
        Inl e \<Rightarrow> Inl e
      | Inr a \<Rightarrow>
          (let w1 = alloc a w;
               appended = artists w1 @ [next_ref w]
           in Inr (w1\<lparr>artists := sort_key (\<lambda>r. layer (heap w1 r)) appended\<rparr>)))"

datatype listing = Strings "string list" | Refs "ref list"

definition getAllArtists :: "bool \<Rightarrow> 'd world \<Rightarrow> listing" where
  "getAllArtists asString w =
     (if asString then Strings (map (\<lambda>r. artist_str (heap w r)) (artists w))
      else Refs (artists w))"

definition getActiveArtists :: "bool \<Rightarrow> 'd world \<Rightarrow> listing" where
  "getActiveArtists asString w =
     (if asString
      then Strings (map (\<lambda>r. artist_str (heap w r))
                     (filter (\<lambda>r. isActive (heap w r) (frame_counter w)) (artists w)))
      else Refs (filter (\<lambda>r. isActive (heap w r) (frame_counter w)) (artists w)))"

text \<open>
  \<open>list.remove(x)\<close> deletes the first item that is \<open>x\<close> or compares equal to it, and
  raises \<open>ValueError\<close> when there is none. The comparison is the item's \<open>__eq__\<close>.
\<close>

fun list_remove :: "(ref \<Rightarrow> 'd artist) \<Rightarrow> ref list \<Rightarrow> ref \<Rightarrow> error + ref list" where
  "list_remove h [] x = Inl ValueError"
| "list_remove h (y # ys) x =
     (if y = x then Inr ys
      else case artist_eq (h y) (ArtistObj (h x)) of
        Inl e \<Rightarrow> Inl e
      | Inr True \<Rightarrow> Inr ys
      | Inr False \<Rightarrow>
          (case list_remove h ys x of Inl e \<Rightarrow> Inl e | Inr ys' \<Rightarrow> Inr (y # ys')))"

text \<open>
  \<open>Canvas.draw\<close>. The first loop runs over \<open>self.artists\<close>, which it does not change; it
  changes the artists (through \<open>draw\<close>), the axes and the library log, and collects
  \<open>up_for_ramoval\<close>. The second loop removes the collected artists one by one.
\<close>

definition draw_at :: "ref \<Rightarrow> 'd world \<Rightarrow> 'd world" where
  "draw_at r w =
     (case draw (heap w r) (ax w) (plt w) of
        (a, axs, lib) \<Rightarrow> w\<lparr>heap := (heap w)(r := a), ax := axs, plt := lib\<rparr>)"

fun draw_loop :: "ref list \<Rightarrow> 'd world \<Rightarrow> ref list \<Rightarrow> 'd world \<times> ref list" where
  "draw_loop [] w up_for_ramoval = (w, up_for_ramoval)"
| "draw_loop (artist # rest) w up_for_ramoval =
     (let w1 = (if isActive (heap w artist) (frame_counter w) then draw_at artist w else w);
          up1 = (if isDone (heap w1 artist) (frame_counter w1)
                 then up_for_ramoval @ [artist] else up_for_ramoval)
      in draw_loop rest w1 up1)"

fun remove_loop :: "ref list \<Rightarrow> 'd world \<Rightarrow> error + 'd world" where
  "remove_loop [] w = Inr w"
| "remove_loop (artist # rest) w =
     (case list_remove (heap w) (artists w) artist of
        Inl e \<Rightarrow> Inl e
      | Inr xs \<Rightarrow> remove_loop rest (w\<lparr>artists := xs\<rparr>))"

definition Canvas_draw :: "'d world \<Rightarrow> error + 'd world" where
  "Canvas_draw w =
     (case draw_loop (artists w) w [] of (w1, up_for_ramoval) \<Rightarrow> remove_loop up_for_ramoval w1)"

definition resetAxes :: "'d world \<Rightarrow> 'd world" where
  "resetAxes w = w\<lparr>ax := \<lparr>items = [], xlim = xlims w, ylim = ylims w\<rparr>\<rparr>"

definition "show" :: "'d world \<Rightarrow> error + 'd world" where
  "show w =
     (case Canvas_draw w of Inl e \<Rightarrow> Inl e | Inr w1 \<Rightarrow> Inr (w1\<lparr>plt := plt w1 @ [Plt_show]\<rparr>))"

text \<open>
  \<open>Canvas.save\<close>. \<open>savefig_raises\<close> is what \<open>fig.savefig\<close> did with the path: \<open>None\<close> when
  it wrote the file, the error when it raised (the folder does not exist, say). The
  exception leaves \<open>save\<close> after the draw pass and before \<open>resetAxes\<close> and the increment,
  so an error comes with the world as the call left it.
\<close>

definition save ::
  "error option \<Rightarrow> string \<Rightarrow> string \<Rightarrow> 'd world \<Rightarrow> (error \<times> 'd world) + 'd world" where
  "save savefig_raises folder fname w =
     (case Canvas_draw w of
        Inl e \<Rightarrow> Inl (e, w)
      | Inr w1 \<Rightarrow>
          (case savefig_raises of
             Some e \<Rightarrow> Inl (e, w1)
           | None \<Rightarrow>
               (let path = folder @ ''/'' @ fname @ ''_'' @ str_int (frame_counter w1);
                    w2 = w1\<lparr>plt := plt w1 @ [Savefig path (ax w1)]\<rparr>;
                    w3 = resetAxes w2
                in Inr (w3\<lparr>frame_counter := frame_counter w3 + 1\<rparr>))))"

subsection \<open>Programs over the interface\<close>

text \<open>
  One call of the interface. \<open>New\<close> constructs an artist outside the canvas, the next
  three are methods called on an artist object, the rest are the methods of the canvas;
  \<open>Save\<close> comes with what \<open>fig.savefig\<close> does in that call. A call returns the new world,
  or raises and leaves a world behind: \<open>raised w\<close> is for the calls that raise before
  their first assignment and so leave \<open>w\<close>.
\<close>

datatype 'd op =
    New cls "'d axes \<Rightarrow> 'd axes" kwargs string
  | Deactivate ref
  | Toggle ref
  | Draw ref
  | AddArtistFactory "'d axes \<Rightarrow> 'd axes" cls kwargs string
  | AddArtist ref
  | GetAllArtists bool
  | GetActiveArtists bool
  | CanvasDraw
  | ResetAxes
  | Show
  | Save string string "error option"

definition raised :: "'d world \<Rightarrow> error + 'd world \<Rightarrow> (error \<times> 'd world) + 'd world" where
  "raised w res = (case res of Inl e \<Rightarrow> Inl (e, w) | Inr w1 \<Rightarrow> Inr w1)"

fun exec :: "'d op \<Rightarrow> 'd world \<Rightarrow> (error \<times> 'd world) + 'd world" where
  "exec (New c f kw rid) w =
     (case call_cls c rid f kw of Inl e \<Rightarrow> Inl (e, w) | Inr a \<Rightarrow> Inr (alloc a w))"
| "exec (Deactivate r) w = Inr (w\<lparr>heap := (heap w)(r := deactivate (heap w r))\<rparr>)"
| "exec (Toggle r) w =
     (case toggle (heap w r) of
        Inl e \<Rightarrow> Inl (e, w)
      | Inr a \<Rightarrow> Inr (w\<lparr>heap := (heap w)(r := a)\<rparr>))"
| "exec (Draw r) w = Inr (draw_at r w)"
| "exec (AddArtistFactory f c kw rid) w = raised w (addArtistFactory f c kw rid w)"
| "exec (AddArtist r) w = Inr (addArtist r w)"
| "exec (GetAllArtists b) w = Inr w"
| "exec (GetActiveArtists b) w = Inr w"
| "exec CanvasDraw w = raised w (Canvas_draw w)"
| "exec ResetAxes w = Inr (resetAxes w)"
| "exec Show w = raised w (show w)"
| "exec (Save folder fname savefig_raises) w = save savefig_raises folder fname w"

text \<open>
  A sequence of calls. A caller that catches an exception goes on from the world that the
  call left: the world before the call for the errors that are raised before the first
  assignment, the world after the draw pass for a \<open>save\<close> that could not write its file.
  (\<open>Canvas_draw\<close> itself raises nothing, see \<open>Canvas_draw_returns\<close>.)
\<close>

fun state_after :: "(error \<times> 'd world) + 'd world \<Rightarrow> 'd world" where
  "state_after (Inl (e, w)) = w"
| "state_after (Inr w) = w"

fun run :: "'d op list \<Rightarrow> 'd world \<Rightarrow> 'd world" where
  "run [] w = w"
| "run (c # cs) w = run cs (state_after (exec c w))"

subsection \<open>Notions used in the statements\<close>

text \<open>
  \<open>mark_drawn\<close> is what \<open>draw\<close> does to the object itself (lemma \<open>draw_parts\<close>), and
  \<open>done_after a f\<close> says that \<open>a\<close> reports done at frame \<open>f\<close> once the canvas has visited
  it there, that is after the draw, if there was one.
\<close>

definition mark_drawn :: "'d artist \<Rightarrow> 'd artist" where
  "mark_drawn a =
     (case variant a of OneTimeArtist d wh \<Rightarrow> a\<lparr>variant := OneTimeArtist True wh\<rparr> | _ \<Rightarrow> a)"

definition done_after :: "'d artist \<Rightarrow> int \<Rightarrow> bool" where
  "done_after a fc = (if isActive a fc then isDone (mark_drawn a) fc else isDone a fc)"

text \<open>\<open>toggles n\<close> is \<open>n\<close> calls of \<open>toggle\<close> in a row.\<close>

fun toggles :: "nat \<Rightarrow> 'd artist \<Rightarrow> error + 'd artist" where
  "toggles 0 a = Inr a"
| "toggles (Suc n) a = (case toggle a of Inl e \<Rightarrow> Inl e | Inr a1 \<Rightarrow> toggles n a1)"

text \<open>\<open>saves c\<close>: the call is a \<open>save\<close> whose file is written.\<close>

definition saves :: "'d op \<Rightarrow> bool" where
  "saves c = (case c of Save folder fname savefig_raises \<Rightarrow> savefig_raises = None | _ \<Rightarrow> False)"

text \<open>
  A registration is one of the two \<open>add\<close> calls, where the artist handed to \<open>addArtist\<close>
  is one of the objects that exist, those below \<open>n\<close>; constructing an artist to register
  it later belongs to a program of registrations as well. \<open>registrations cs w\<close> says that
  \<open>cs\<close>, run from \<open>w\<close>, is such a program, and \<open>registered cs w\<close> lists the artists that
  it registers, in the order of the calls.
\<close>

definition registers :: "ref \<Rightarrow> 'd op \<Rightarrow> bool" where
  "registers n c =
     (case c of
        AddArtist r \<Rightarrow> r < n
      | AddArtistFactory f cl kw rid \<Rightarrow> True
      | New cl f kw rid \<Rightarrow> True
      | _ \<Rightarrow> False)"

fun registrations :: "'d op list \<Rightarrow> 'd world \<Rightarrow> bool" where
  "registrations [] w = True"
| "registrations (c # cs) w = (registers (next_ref w) c \<and> registrations cs (run [c] w))"

fun registered :: "'d op list \<Rightarrow> 'd world \<Rightarrow> ref list" where
  "registered [] w = []"
| "registered (c # cs) w =
     (case c of
        AddArtist r \<Rightarrow> r # registered cs (run [c] w)
      | AddArtistFactory f cl kw rid \<Rightarrow>
          (case exec c w of
             Inl left \<Rightarrow> registered cs w
           | Inr w1 \<Rightarrow> next_ref w # registered cs w1)
      | _ \<Rightarrow> registered cs (run [c] w))"

subsection \<open>Example worlds\<close>

text \<open>A callback that adds one named item to the axes, and canvases built with it.\<close>

definition line_cb :: "string \<Rightarrow> string axes \<Rightarrow> string axes" where
  "line_cb name axs = axs\<lparr>items := items axs @ [name]\<rparr>"

text \<open>
  \<open>blank\<close> is the canvas that \<open>Canvas(5, 5, (0, 10), (0, 10))\<close> constructs (see the witness
  of \<open>frame_counter_only_save\<close>).
\<close>

definition blank :: "string world" where
  "blank =
     \<lparr>heap = (\<lambda>r. Artist_init ''zzzzzzzzzz'' (line_cb ''z'') 0), next_ref = 0,
      frame_counter = 1, xlims = (0, 10), ylims = (0, 10),
      ax = \<lparr>items = [], xlim = (0, 10), ylim = (0, 10)\<rparr>, artists = [],
      plt = [Plt_figure 5 5 100]\<rparr>"

text \<open>The same artists as in \<open>scene\<close> below, the one-time artist registered twice.\<close>

definition twice :: "string world" where
  "twice = blank\<lparr>heap := (heap blank)
       (0 := Artist_init ''aaaaaaaaaa'' (line_cb ''p'') 0,
        1 := TimedArtist_init ''bbbbbbbbbb'' (line_cb ''t'') 10 20 1,
        2 := OneTimeArtist_init ''cccccccccc'' (line_cb ''o'') 1 0),
     next_ref := 3, artists := [0, 2, 2, 1]\<rparr>"

text \<open>Three artists with different identifiers; the one-time artist is due at frame 1.\<close>

definition scene :: "string world" where
  "scene = blank\<lparr>heap := (heap blank)
       (0 := Artist_init ''aaaaaaaaaa'' (line_cb ''p'') 0,
        1 := TimedArtist_init ''bbbbbbbbbb'' (line_cb ''t'') 10 20 1,
        2 := OneTimeArtist_init ''cccccccccc'' (line_cb ''o'') 1 0),
     next_ref := 3, artists := [0, 2, 1]\<rparr>"

text \<open>A one-time artist due at frame 1 behind an artist that drew the same identifier.\<close>

definition collide :: "string world" where
  "collide = blank\<lparr>heap := (heap blank)
       (0 := Artist_init ''aaaaaaaaaa'' (line_cb ''p'') 0,
        1 := OneTimeArtist_init ''aaaaaaaaaa'' (line_cb ''q'') 1 0),
     next_ref := 2, artists := [0, 1]\<rparr>"

text \<open>A one-time artist due at frame 1 that was deactivated before.\<close>

definition retired :: "string world" where
  "retired = blank\<lparr>heap := (heap blank)
       (0 := deactivate (OneTimeArtist_init ''bbbbbbbbbb'' (line_cb ''q'') 1 0)),
     next_ref := 1, artists := [0]\<rparr>"

text \<open>Two plain artists with the same identifier, the second one deactivated.\<close>

definition twins :: "string world" where
  "twins = blank\<lparr>heap := (heap blank)
       (0 := Artist_init ''aaaaaaaaaa'' (line_cb ''p'') 0,
        1 := deactivate (Artist_init ''aaaaaaaaaa'' (line_cb ''q'') 0)),
     next_ref := 2, artists := [0, 1]\<rparr>"

text \<open>Two artists that exist but are not registered yet, and a program of registrations.\<close>

definition two :: "string world" where
  "two = blank\<lparr>heap := (heap blank)
       (0 := Artist_init ''aaaaaaaaaa'' (line_cb ''p'') 2,
        1 := ToggledArtist_init ''bbbbbbbbbb'' (line_cb ''q'') ''inactive'' 0),
     next_ref := 2\<rparr>"

definition ex_regs :: "string op list" where
  "ex_regs =
     [New OneTimeArtistC (line_cb ''o'')
        \<lparr>kw_layer = None, kw_start = None, kw_end = None, kw_state = None,
         kw_when = Some 5, kw_other = []\<rparr> ''eeeeeeeeee'',
      AddArtist 0,
      AddArtistFactory (line_cb ''t'') TimedArtistC
        \<lparr>kw_layer = Some 1, kw_start = Some 10, kw_end = Some 20, kw_state = None,
         kw_when = None, kw_other = []\<rparr> ''cccccccccc'',
      AddArtist 1,
      AddArtistFactory (line_cb ''u'') ArtistC
        \<lparr>kw_layer = None, kw_start = None, kw_end = None, kw_state = None,
         kw_when = None, kw_other = []\<rparr> ''dddddddddd'',
      AddArtist 2]"

lemmas world_defs =
  blank_def Artist_init_def TimedArtist_init_def ToggledArtist_init_def
  OneTimeArtist_init_def deactivate_def line_cb_def

lemmas call_defs =
  raised_def Canvas_draw_def isActive_def isDone_def draw_at_def draw_def artist_eq_def getattr_id_def
  addArtist_def addArtistFactory_def call_cls_def alloc_def or_default_def save_def show_def
  resetAxes_def str_int_def str_nat.simps Let_def

section \<open>Properties\<close>

subsection \<open>The first loop of \<open>Canvas.draw\<close>\<close>

lemma draw_parts:
  "draw a axs lib = (mark_drawn a, artist_factory a axs, lib @ [Plt_draw])"
  by (simp add: draw_def mark_drawn_def split: variant.splits)

lemma draw_at_simps [simp]:
  "heap (draw_at r w) = (heap w)(r := mark_drawn (heap w r))"
  "ax (draw_at r w) = artist_factory (heap w r) (ax w)"
  "plt (draw_at r w) = plt w @ [Plt_draw]"
  "frame_counter (draw_at r w) = frame_counter w"
  "artists (draw_at r w) = artists w"
  "next_ref (draw_at r w) = next_ref w"
  "xlims (draw_at r w) = xlims w"
  "ylims (draw_at r w) = ylims w"
  by (simp_all add: draw_at_def draw_parts)

lemma mark_drawn_simps [simp]:
  "id_str (mark_drawn a) = id_str a"
  "layer (mark_drawn a) = layer a"
  "artist_factory (mark_drawn a) = artist_factory a"
  "deactivated (mark_drawn a) = deactivated a"
  "isActive (mark_drawn a) fc = isActive a fc"
  "mark_drawn (mark_drawn a) = mark_drawn a"
  by (simp_all add: mark_drawn_def isActive_def split: variant.splits)

lemma isDone_mark_drawn: "isDone a fc \<Longrightarrow> isDone (mark_drawn a) fc"
  by (auto simp: mark_drawn_def isDone_def split: variant.splits)

lemma done_after_mark_drawn:
  "isActive a fc \<Longrightarrow> done_after (mark_drawn a) fc = done_after a fc"
  by (simp add: done_after_def)

lemma if_mark_drawn [simp]:
  "isActive (if r = a then mark_drawn (h a) else h r) fc = isActive (h r) fc"
  "artist_factory (if r = a then mark_drawn (h a) else h r) = artist_factory (h r)"
  "id_str (if r = a then mark_drawn (h a) else h r) = id_str (h r)"
  "layer (if r = a then mark_drawn (h a) else h r) = layer (h r)"
  "deactivated (if r = a then mark_drawn (h a) else h r) = deactivated (h r)"
  by simp_all

lemma if_done_after:
  "isActive (h a) fc \<Longrightarrow>
   done_after (if r = a then mark_drawn (h a) else h r) fc = done_after (h r) fc"
  by (simp add: done_after_mark_drawn)

lemma draw_loop_unchanged:
  "draw_loop L w up = (w', up') \<Longrightarrow>
   frame_counter w' = frame_counter w \<and> artists w' = artists w \<and> next_ref w' = next_ref w
   \<and> xlims w' = xlims w \<and> ylims w' = ylims w"
  by (induction L arbitrary: w up) (auto simp: Let_def split: if_splits)

lemma draw_loop_heap:
  "draw_loop L w up = (w', up') \<Longrightarrow>
   heap w' = (\<lambda>r. if r \<in> set L \<and> isActive (heap w r) (frame_counter w)
                  then mark_drawn (heap w r) else heap w r)"
proof (induction L arbitrary: w up)
  case Nil
  then show ?case by auto
next
  case (Cons a L)
  show ?case
  proof (cases "isActive (heap w a) (frame_counter w)")
    case True
    with Cons.prems have "draw_loop L (draw_at a w)
        (if isDone (mark_drawn (heap w a)) (frame_counter w) then up @ [a] else up) = (w', up')"
      by (simp add: Let_def)
    from Cons.IH [OF this] True show ?thesis by (auto simp: fun_eq_iff)
  next
    case False
    with Cons.prems have "draw_loop L w
        (if isDone (heap w a) (frame_counter w) then up @ [a] else up) = (w', up')"
      by (simp add: Let_def)
    from Cons.IH [OF this] False show ?thesis by (auto simp: fun_eq_iff)
  qed
qed

lemma draw_loop_marked:
  "draw_loop L w up = (w', up') \<Longrightarrow>
   up' = up @ [r \<leftarrow> L. done_after (heap w r) (frame_counter w)]"
proof (induction L arbitrary: w up)
  case Nil
  then show ?case by auto
next
  case (Cons a L)
  show ?case
  proof (cases "isActive (heap w a) (frame_counter w)")
    case True
    with Cons.prems have "draw_loop L (draw_at a w)
        (if isDone (mark_drawn (heap w a)) (frame_counter w) then up @ [a] else up) = (w', up')"
      by (simp add: Let_def)
    from Cons.IH [OF this] True show ?thesis
      by (simp add: if_done_after) (simp add: done_after_def)
  next
    case False
    with Cons.prems have "draw_loop L w
        (if isDone (heap w a) (frame_counter w) then up @ [a] else up) = (w', up')"
      by (simp add: Let_def)
    from Cons.IH [OF this] False show ?thesis by (auto simp: done_after_def)
  qed
qed

lemma draw_loop_ax:
  "draw_loop L w up = (w', up') \<Longrightarrow>
   ax w' = fold (\<lambda>r. artist_factory (heap w r))
             [r \<leftarrow> L. isActive (heap w r) (frame_counter w)] (ax w)
   \<and> plt w' = plt w @ replicate (length [r \<leftarrow> L. isActive (heap w r) (frame_counter w)]) Plt_draw"
proof (induction L arbitrary: w up)
  case Nil
  then show ?case by auto
next
  case (Cons a L)
  show ?case
  proof (cases "isActive (heap w a) (frame_counter w)")
    case True
    with Cons.prems have "draw_loop L (draw_at a w)
        (if isDone (mark_drawn (heap w a)) (frame_counter w) then up @ [a] else up) = (w', up')"
      by (simp add: Let_def)
    from Cons.IH [OF this] True show ?thesis
      by (simp add: replicate_append_same)
  next
    case False
    with Cons.prems have "draw_loop L w
        (if isDone (heap w a) (frame_counter w) then up @ [a] else up) = (w', up')"
      by (simp add: Let_def)
    from Cons.IH [OF this] False show ?thesis by auto
  qed
qed

subsection \<open>\<open>list.remove\<close> and the second loop\<close>

lemma list_remove_Cons:
  "list_remove h (y # ys) x =
     (if id_str (h y) = id_str (h x) then Inr ys
      else case list_remove h ys x of Inl e \<Rightarrow> Inl e | Inr ys' \<Rightarrow> Inr (y # ys'))"
  by (auto simp: artist_eq_def getattr_id_def)

lemma list_remove_distinct:
  "distinct (map (\<lambda>r. id_str (h r)) L) \<Longrightarrow> x \<in> set L \<Longrightarrow>
   list_remove h L x = Inr [y \<leftarrow> L. y \<noteq> x]"
proof (induction L)
  case Nil
  then show ?case by simp
next
  case (Cons y ys)
  show ?case
  proof (cases "y = x")
    case True
    with Cons.prems have "x \<notin> set ys" by auto
    then have "[y \<leftarrow> ys. y \<noteq> x] = ys" by (auto simp: filter_id_conv)
    with True show ?thesis by simp
  next
    case False
    with Cons.prems have x: "x \<in> set ys" by simp
    with Cons.prems have "id_str (h y) \<noteq> id_str (h x)" by (auto simp: image_iff)
    moreover from Cons.IH x Cons.prems have "list_remove h ys x = Inr [y \<leftarrow> ys. y \<noteq> x]" by simp
    ultimately show ?thesis using False by (simp only: list_remove_Cons) simp
  qed
qed

lemma list_remove_ok:
  "id_str (h x) \<in> (\<lambda>r. id_str (h r)) ` set L \<Longrightarrow>
   \<exists>L'. list_remove h L x = Inr L'
      \<and> image_mset (\<lambda>r. id_str (h r)) (mset L')
          = image_mset (\<lambda>r. id_str (h r)) (mset L) - {#id_str (h x)#}
      \<and> subseq L' L \<and> Suc (length L') = length L"
proof (induction L)
  case Nil
  then show ?case by simp
next
  case (Cons y ys)
  show ?case
  proof (cases "id_str (h y) = id_str (h x)")
    case True
    then show ?thesis by (simp only: list_remove_Cons) (simp add: subseq_Cons')
  next
    case False
    with Cons.prems have "id_str (h x) \<in> (\<lambda>r. id_str (h r)) ` set ys" by auto
    from Cons.IH [OF this] obtain L' where
      L': "list_remove h ys x = Inr L'"
      "image_mset (\<lambda>r. id_str (h r)) (mset L')
          = image_mset (\<lambda>r. id_str (h r)) (mset ys) - {#id_str (h x)#}"
      "subseq L' ys" "Suc (length L') = length ys"
      by blast
    with False show ?thesis by (simp only: list_remove_Cons) simp
  qed
qed

lemma remove_loop_fields:
  "remove_loop M w = Inr w' \<Longrightarrow> w' = w\<lparr>artists := artists w'\<rparr>"
proof (induction M arbitrary: w)
  case Nil
  then show ?case by simp
next
  case (Cons m M)
  then obtain xs where xs: "list_remove (heap w) (artists w) m = Inr xs"
    and r: "remove_loop M (w\<lparr>artists := xs\<rparr>) = Inr w'"
    by (auto split: sum.splits)
  from Cons.IH [OF r] show ?case by simp
qed

lemma remove_loop_distinct:
  "distinct (map (\<lambda>r. id_str (heap w r)) (artists w)) \<Longrightarrow> set M \<subseteq> set (artists w) \<Longrightarrow>
   distinct M \<Longrightarrow>
   remove_loop M w = Inr (w\<lparr>artists := [r \<leftarrow> artists w. r \<notin> set M]\<rparr>)"
proof (induction M arbitrary: w)
  case Nil
  then show ?case by simp
next
  case (Cons m M)
  let ?w1 = "w\<lparr>artists := [y \<leftarrow> artists w. y \<noteq> m]\<rparr>"
  from Cons.prems have rm: "list_remove (heap w) (artists w) m = Inr [y \<leftarrow> artists w. y \<noteq> m]"
    by (intro list_remove_distinct) auto
  have d: "distinct (map (\<lambda>r. id_str (heap ?w1 r)) (artists ?w1))"
    using Cons.prems(1) by (simp add: distinct_map_filter)
  have s: "set M \<subseteq> set (artists ?w1)" using Cons.prems by auto
  have "remove_loop M ?w1 = Inr (?w1\<lparr>artists := [r \<leftarrow> artists ?w1. r \<notin> set M]\<rparr>)"
    using d s Cons.prems(3) by (intro Cons.IH) auto
  moreover have "[r \<leftarrow> [y \<leftarrow> artists w. y \<noteq> m]. r \<notin> set M] = [r \<leftarrow> artists w. r \<notin> set (m # M)]"
    by (auto intro: filter_cong)
  ultimately show ?case using rm by simp
qed

text \<open>
  The same when it is only different objects that have different identifiers: an object
  may then stand in the list more than once, and \<open>list.remove\<close> takes its first entry.
\<close>

lemma list_remove_inj:
  "inj_on (\<lambda>r. id_str (h r)) (set L) \<Longrightarrow> x \<in> set L \<Longrightarrow>
   list_remove h L x = Inr (remove1 x L)"
proof (induction L)
  case Nil
  then show ?case by simp
next
  case (Cons y ys)
  show ?case
  proof (cases "y = x")
    case True
    then show ?thesis by simp
  next
    case False
    with Cons.prems have x: "x \<in> set ys" by simp
    with Cons.prems(1) False have ne: "id_str (h y) \<noteq> id_str (h x)"
      by (auto simp: inj_on_def)
    from Cons.prems(1) have "inj_on (\<lambda>r. id_str (h r)) (set ys)"
      by (rule inj_on_subset) auto
    from Cons.IH [OF this x] ne False show ?thesis
      by (simp only: list_remove_Cons) simp
  qed
qed

lemma remove_loop_inj:
  "inj_on (\<lambda>r. id_str (heap w r)) (set (artists w)) \<Longrightarrow> mset M \<subseteq># mset (artists w) \<Longrightarrow>
   remove_loop M w = Inr (w\<lparr>artists := fold remove1 M (artists w)\<rparr>)"
proof (induction M arbitrary: w)
  case Nil
  then show ?case by simp
next
  case (Cons m M)
  let ?w1 = "w\<lparr>artists := remove1 m (artists w)\<rparr>"
  from Cons.prems(2) have m: "m \<in> set (artists w)"
    and M: "mset M \<subseteq># mset (remove1 m (artists w))"
    by (simp_all add: insert_subset_eq_iff)
  from Cons.prems(1) m
  have rm: "list_remove (heap w) (artists w) m = Inr (remove1 m (artists w))"
    by (rule list_remove_inj)
  have "set (remove1 m (artists w)) \<subseteq> set (artists w)" by (rule set_remove1_subset)
  from inj_on_subset [OF Cons.prems(1) this]
  have "inj_on (\<lambda>r. id_str (heap ?w1 r)) (set (artists ?w1))" by simp
  moreover have "mset M \<subseteq># mset (artists ?w1)" using M by simp
  ultimately have "remove_loop M ?w1 = Inr (?w1\<lparr>artists := fold remove1 M (artists ?w1)\<rparr>)"
    by (rule Cons.IH)
  with rm show ?case by simp
qed

lemma fold_remove1_filter:
  "\<forall>x\<in>set pre. \<not> P x \<Longrightarrow>
   fold remove1 (filter P L) (pre @ L) = pre @ filter (\<lambda>x. \<not> P x) L"
proof (induction L arbitrary: pre)
  case Nil
  then show ?case by simp
next
  case (Cons x L)
  show ?case
  proof (cases "P x")
    case True
    with Cons.prems have "x \<notin> set pre" by auto
    then have "remove1 x (pre @ x # L) = pre @ L" by (simp add: remove1_append)
    with True Cons.IH [OF Cons.prems] show ?thesis by simp
  next
    case False
    with Cons.prems have "\<forall>y\<in>set (pre @ [x]). \<not> P y" by simp
    from Cons.IH [OF this] False show ?thesis by simp
  qed
qed

lemma remove_loop_ok:
  "image_mset (\<lambda>r. id_str (heap w r)) (mset M)
     \<subseteq># image_mset (\<lambda>r. id_str (heap w r)) (mset (artists w)) \<Longrightarrow>
   \<exists>L'. remove_loop M w = Inr (w\<lparr>artists := L'\<rparr>) \<and> subseq L' (artists w)
      \<and> image_mset (\<lambda>r. id_str (heap w r)) (mset L')
          + image_mset (\<lambda>r. id_str (heap w r)) (mset M)
          = image_mset (\<lambda>r. id_str (heap w r)) (mset (artists w))"
proof (induction M arbitrary: w)
  case Nil
  then show ?case by (intro exI [of _ "artists w"]) simp
next
  case (Cons m M)
  let ?k = "\<lambda>r. id_str (heap w r)"
  from Cons.prems have km: "?k m \<in># image_mset ?k (mset (artists w))"
    by (simp add: insert_subset_eq_iff)
  then have "?k m \<in> ?k ` set (artists w)" by auto
  from list_remove_ok [OF this] obtain xs where
    xs: "list_remove (heap w) (artists w) m = Inr xs"
    "image_mset ?k (mset xs) = image_mset ?k (mset (artists w)) - {#?k m#}"
    "subseq xs (artists w)"
    by blast
  let ?w1 = "w\<lparr>artists := xs\<rparr>"
  have "image_mset ?k (mset M) \<subseteq># image_mset ?k (mset xs)"
    using Cons.prems xs(2) by (simp add: insert_subset_eq_iff)
  then have "image_mset (\<lambda>r. id_str (heap ?w1 r)) (mset M)
     \<subseteq># image_mset (\<lambda>r. id_str (heap ?w1 r)) (mset (artists ?w1))" by simp
  from Cons.IH [OF this] obtain L' where
    L': "remove_loop M ?w1 = Inr (?w1\<lparr>artists := L'\<rparr>)" "subseq L' xs"
    "image_mset ?k (mset L') + image_mset ?k (mset M) = image_mset ?k (mset xs)" by auto
  from L'(2) xs(3) have sub: "subseq L' (artists w)" by (rule subseq_order.trans)
  have "image_mset ?k (mset L') + image_mset ?k (mset (m # M))
      = image_mset ?k (mset xs) + {#?k m#}"
    using L'(3) by (simp add: ac_simps)
  also have "\<dots> = image_mset ?k (mset (artists w))"
    using km by (simp add: xs(2))
  finally have "image_mset ?k (mset L') + image_mset ?k (mset (m # M))
      = image_mset ?k (mset (artists w))" .
  with xs(1) L'(1) sub show ?case by (auto intro!: exI [of _ L'])
qed

subsection \<open>\<open>Canvas.draw\<close> as a whole\<close>

text \<open>The artists to remove are taken from the list itself, so \<open>list.remove\<close> finds each.\<close>

lemma Canvas_draw_returns: "\<exists>w'. Canvas_draw w = Inr w'"
proof -
  obtain w1 up where dl: "draw_loop (artists w) w [] = (w1, up)" by (cases "draw_loop (artists w) w []")
  have up: "up = [r \<leftarrow> artists w. done_after (heap w r) (frame_counter w)]"
    using draw_loop_marked [OF dl] by simp
  have h: "(\<lambda>r. id_str (heap w1 r)) = (\<lambda>r. id_str (heap w r))"
    by (simp add: draw_loop_heap [OF dl] fun_eq_iff)
  have a: "artists w1 = artists w" using draw_loop_unchanged [OF dl] by simp
  have "mset up \<subseteq># mset (artists w)" unfolding up by simp
  then have "image_mset (\<lambda>r. id_str (heap w1 r)) (mset up)
     \<subseteq># image_mset (\<lambda>r. id_str (heap w1 r)) (mset (artists w1))"
    unfolding a by (rule image_mset_subseteq_mono)
  from remove_loop_ok [OF this] dl show ?thesis by (auto simp: Canvas_draw_def)
qed

lemma Canvas_draw_result:
  assumes "Canvas_draw w = Inr w'"
  shows "heap w' = (\<lambda>r. if r \<in> set (artists w) \<and> isActive (heap w r) (frame_counter w)
                  then mark_drawn (heap w r) else heap w r)"
    and "ax w' = fold (\<lambda>r. artist_factory (heap w r))
             [r \<leftarrow> artists w. isActive (heap w r) (frame_counter w)] (ax w)"
    and "plt w' = plt w @ replicate (length [r \<leftarrow> artists w. isActive (heap w r) (frame_counter w)]) Plt_draw"
    and "frame_counter w' = frame_counter w" and "next_ref w' = next_ref w"
    and "xlims w' = xlims w" and "ylims w' = ylims w"
proof -
  obtain w1 up where dl: "draw_loop (artists w) w [] = (w1, up)" by (cases "draw_loop (artists w) w []")
  with assms have "remove_loop up w1 = Inr w'" by (simp add: Canvas_draw_def)
  from remove_loop_fields [OF this] have w': "w' = w1\<lparr>artists := artists w'\<rparr>" .
  have h: "heap w' = heap w1" "ax w' = ax w1" "plt w' = plt w1" "frame_counter w' = frame_counter w1"
    "next_ref w' = next_ref w1" "xlims w' = xlims w1" "ylims w' = ylims w1"
    by (subst w', simp)+
  show "heap w' = (\<lambda>r. if r \<in> set (artists w) \<and> isActive (heap w r) (frame_counter w)
                  then mark_drawn (heap w r) else heap w r)"
    using draw_loop_heap [OF dl] h by simp
  show "ax w' = fold (\<lambda>r. artist_factory (heap w r))
             [r \<leftarrow> artists w. isActive (heap w r) (frame_counter w)] (ax w)"
    using draw_loop_ax [OF dl] h by simp
  show "plt w' = plt w @ replicate (length [r \<leftarrow> artists w. isActive (heap w r) (frame_counter w)]) Plt_draw"
    using draw_loop_ax [OF dl] h by simp
  show "frame_counter w' = frame_counter w" "next_ref w' = next_ref w"
    "xlims w' = xlims w" "ylims w' = ylims w"
    using draw_loop_unchanged [OF dl] h by simp_all
qed

lemma Canvas_draw_distinct:
  assumes "distinct (map (\<lambda>r. id_str (heap w r)) (artists w))"
    and "Canvas_draw w = Inr w'"
  shows "artists w' = [r \<leftarrow> artists w. r \<notin> set (snd (draw_loop (artists w) w []))]"
proof -
  obtain w1 up where dl: "draw_loop (artists w) w [] = (w1, up)" by (cases "draw_loop (artists w) w []")
  have up: "up = [r \<leftarrow> artists w. done_after (heap w r) (frame_counter w)]"
    using draw_loop_marked [OF dl] by simp
  have k: "(\<lambda>r. id_str (heap w1 r)) = (\<lambda>r. id_str (heap w r))"
    by (simp add: draw_loop_heap [OF dl] fun_eq_iff)
  have a: "artists w1 = artists w" using draw_loop_unchanged [OF dl] by simp
  have d: "distinct (artists w)" using assms(1) by (simp add: distinct_map)
  have "remove_loop up w1 = Inr (w1\<lparr>artists := [r \<leftarrow> artists w1. r \<notin> set up]\<rparr>)"
  proof (rule remove_loop_distinct)
    show "distinct (map (\<lambda>r. id_str (heap w1 r)) (artists w1))" using assms(1) by (simp add: k a)
    show "set up \<subseteq> set (artists w1)" by (auto simp: up a)
    show "distinct up" using d by (simp add: up)
  qed
  with assms(2) dl a show ?thesis by (auto simp: Canvas_draw_def)
qed

lemma Canvas_draw_inj:
  assumes "inj_on (\<lambda>r. id_str (heap w r)) (set (artists w))"
    and "Canvas_draw w = Inr w'"
  shows "artists w' = [r \<leftarrow> artists w. \<not> done_after (heap w r) (frame_counter w)]"
proof -
  obtain w1 up where dl: "draw_loop (artists w) w [] = (w1, up)"
    by (cases "draw_loop (artists w) w []")
  have up: "up = [r \<leftarrow> artists w. done_after (heap w r) (frame_counter w)]"
    using draw_loop_marked [OF dl] by simp
  have k: "(\<lambda>r. id_str (heap w1 r)) = (\<lambda>r. id_str (heap w r))"
    by (simp add: draw_loop_heap [OF dl] fun_eq_iff)
  have a: "artists w1 = artists w" using draw_loop_unchanged [OF dl] by simp
  have "remove_loop up w1 = Inr (w1\<lparr>artists := fold remove1 up (artists w1)\<rparr>)"
  proof (rule remove_loop_inj)
    show "inj_on (\<lambda>r. id_str (heap w1 r)) (set (artists w1))" using assms(1) by (simp add: k a)
    show "mset up \<subseteq># mset (artists w1)" by (simp add: up a)
  qed
  with assms(2) dl have "artists w' = fold remove1 up (artists w1)"
    by (auto simp: Canvas_draw_def)
  also have "\<dots> = [r \<leftarrow> artists w. \<not> done_after (heap w r) (frame_counter w)]"
    using fold_remove1_filter [of "[]" "\<lambda>r. done_after (heap w r) (frame_counter w)" "artists w"]
    by (simp add: up a)
  finally show ?thesis .
qed

lemma marked_final:
  assumes "Canvas_draw w = Inr w'"
  shows "snd (draw_loop (artists w) w []) = [r \<leftarrow> artists w. isDone (heap w' r) (frame_counter w)]"
proof -
  obtain w1 up where dl: "draw_loop (artists w) w [] = (w1, up)" by (cases "draw_loop (artists w) w []")
  have "up = [r \<leftarrow> artists w. done_after (heap w r) (frame_counter w)]"
    using draw_loop_marked [OF dl] by simp
  also have "\<dots> = [r \<leftarrow> artists w. isDone (heap w' r) (frame_counter w)]"
    by (rule filter_cong) (auto simp: Canvas_draw_result(1) [OF assms] done_after_def)
  finally show ?thesis using dl by simp
qed

lemma Canvas_draw_shrinks:
  assumes "Canvas_draw w = Inr w'"
  shows "subseq (artists w') (artists w)"
    and "image_mset (\<lambda>r. id_str (heap w r)) (mset (artists w'))
          + image_mset (\<lambda>r. id_str (heap w r)) (mset (snd (draw_loop (artists w) w [])))
          = image_mset (\<lambda>r. id_str (heap w r)) (mset (artists w))"
proof -
  obtain w1 up where dl: "draw_loop (artists w) w [] = (w1, up)"
    by (cases "draw_loop (artists w) w []")
  have up: "up = [r \<leftarrow> artists w. done_after (heap w r) (frame_counter w)]"
    using draw_loop_marked [OF dl] by simp
  have k: "(\<lambda>r. id_str (heap w1 r)) = (\<lambda>r. id_str (heap w r))"
    by (simp add: draw_loop_heap [OF dl] fun_eq_iff)
  have a: "artists w1 = artists w" using draw_loop_unchanged [OF dl] by simp
  have "mset up \<subseteq># mset (artists w)" unfolding up by simp
  then have "image_mset (\<lambda>r. id_str (heap w1 r)) (mset up)
     \<subseteq># image_mset (\<lambda>r. id_str (heap w1 r)) (mset (artists w1))"
    unfolding a by (rule image_mset_subseteq_mono)
  from remove_loop_ok [OF this] obtain L' where
    L': "remove_loop up w1 = Inr (w1\<lparr>artists := L'\<rparr>)" "subseq L' (artists w1)"
    "image_mset (\<lambda>r. id_str (heap w1 r)) (mset L')
       + image_mset (\<lambda>r. id_str (heap w1 r)) (mset up)
       = image_mset (\<lambda>r. id_str (heap w1 r)) (mset (artists w1))"
    by blast
  from assms dl L'(1) have "artists w' = L'" by (auto simp: Canvas_draw_def)
  with L'(2,3) dl show "subseq (artists w') (artists w)"
    and "image_mset (\<lambda>r. id_str (heap w r)) (mset (artists w'))
          + image_mset (\<lambda>r. id_str (heap w r)) (mset (snd (draw_loop (artists w) w [])))
          = image_mset (\<lambda>r. id_str (heap w r)) (mset (artists w))"
    by (simp_all add: k a)
qed

subsection \<open>Calls and sequences of calls\<close>

lemma alloc_simps [simp]:
  "heap (alloc a w) = (heap w)(next_ref w := a)"
  "next_ref (alloc a w) = Suc (next_ref w)"
  "frame_counter (alloc a w) = frame_counter w"
  "artists (alloc a w) = artists w"
  by (simp_all add: alloc_def)

lemma save_result:
  "\<exists>w1. Canvas_draw w = Inr w1 \<and>
     save None folder fname w =
       Inr (w1\<lparr>plt := plt w1 @ [Savefig (folder @ ''/'' @ fname @ ''_'' @ str_int (frame_counter w)) (ax w1)],
               ax := \<lparr>items = [], xlim = xlims w, ylim = ylims w\<rparr>,
               frame_counter := frame_counter w + 1\<rparr>)
     \<and> save (Some e) folder fname w = Inl (e, w1)"
proof -
  obtain w1 where w1: "Canvas_draw w = Inr w1" using Canvas_draw_returns by blast
  from Canvas_draw_result [OF w1] w1 show ?thesis
    by (simp add: save_def resetAxes_def Let_def)
qed

lemma show_result:
  "\<exists>w1. Canvas_draw w = Inr w1 \<and> show w = Inr (w1\<lparr>plt := plt w1 @ [Plt_show]\<rparr>)"
  using Canvas_draw_returns [of w] by (auto simp: show_def)

text \<open>What one call, returning or raising, does to an artist that exists.\<close>

lemma exec_artist:
  assumes "r < next_ref w"
  shows "next_ref w \<le> next_ref (state_after (exec c w)) \<and>
     (heap (state_after (exec c w)) r = heap w r
      \<or> heap (state_after (exec c w)) r = mark_drawn (heap w r)
      \<or> heap (state_after (exec c w)) r = deactivate (heap w r)
      \<or> toggle (heap w r) = Inr (heap (state_after (exec c w)) r))"
proof (cases c)
  case (New c f kw rid)
  with assms show ?thesis by (auto split: sum.splits)
next
  case (Deactivate x)
  with assms show ?thesis by auto
next
  case (Toggle x)
  with assms show ?thesis by (auto split: sum.splits)
next
  case (Draw x)
  with assms show ?thesis by auto
next
  case (AddArtistFactory f c kw rid)
  with assms show ?thesis
    by (auto simp: raised_def addArtistFactory_def Let_def split: sum.splits)
next
  case (AddArtist x)
  with assms show ?thesis by (auto simp: addArtist_def Let_def)
next
  case (GetAllArtists b)
  with assms show ?thesis by auto
next
  case (GetActiveArtists b)
  with assms show ?thesis by auto
next
  case CanvasDraw
  obtain w1 where w1: "Canvas_draw w = Inr w1" using Canvas_draw_returns by blast
  from Canvas_draw_result [OF w1] w1 CanvasDraw show ?thesis by (simp add: raised_def)
next
  case ResetAxes
  with assms show ?thesis by (auto simp: resetAxes_def)
next
  case Show
  obtain w1 where w1: "Canvas_draw w = Inr w1" "show w = Inr (w1\<lparr>plt := plt w1 @ [Plt_show]\<rparr>)"
    using show_result by blast
  from Canvas_draw_result [OF w1(1)] w1(2) Show show ?thesis by (simp add: raised_def)
next
  case (Save folder fname res)
  show ?thesis
  proof (cases res)
    case None
    obtain w1 where w1: "Canvas_draw w = Inr w1"
      "save None folder fname w =
       Inr (w1\<lparr>plt := plt w1 @ [Savefig (folder @ ''/'' @ fname @ ''_'' @ str_int (frame_counter w)) (ax w1)],
               ax := \<lparr>items = [], xlim = xlims w, ylim = ylims w\<rparr>,
               frame_counter := frame_counter w + 1\<rparr>)"
      using save_result by blast
    from Canvas_draw_result [OF w1(1)] w1(2) Save None show ?thesis by simp
  next
    case (Some e)
    obtain w1 where w1: "Canvas_draw w = Inr w1" "save (Some e) folder fname w = Inl (e, w1)"
      using save_result by blast
    from Canvas_draw_result [OF w1(1)] w1(2) Save Some show ?thesis by simp
  qed
qed

lemma exec_frame_counter:
  "frame_counter (state_after (exec c w))
     = (if saves c then frame_counter w + 1 else frame_counter w)"
proof (cases c)
  case CanvasDraw
  obtain w1 where w1: "Canvas_draw w = Inr w1" using Canvas_draw_returns by blast
  from Canvas_draw_result [OF w1] w1 CanvasDraw show ?thesis
    by (simp add: saves_def raised_def)
next
  case Show
  obtain w1 where w1: "Canvas_draw w = Inr w1" "show w = Inr (w1\<lparr>plt := plt w1 @ [Plt_show]\<rparr>)"
    using show_result by blast
  from Canvas_draw_result [OF w1(1)] w1(2) Show show ?thesis
    by (simp add: saves_def raised_def)
next
  case (Save folder fname res)
  show ?thesis
  proof (cases res)
    case None
    obtain w1 where w1: "Canvas_draw w = Inr w1"
      "save None folder fname w =
       Inr (w1\<lparr>plt := plt w1 @ [Savefig (folder @ ''/'' @ fname @ ''_'' @ str_int (frame_counter w)) (ax w1)],
               ax := \<lparr>items = [], xlim = xlims w, ylim = ylims w\<rparr>,
               frame_counter := frame_counter w + 1\<rparr>)"
      using save_result by blast
    from w1(2) Save None show ?thesis by (simp add: saves_def)
  next
    case (Some e)
    obtain w1 where w1: "Canvas_draw w = Inr w1" "save (Some e) folder fname w = Inl (e, w1)"
      using save_result by blast
    from Canvas_draw_result [OF w1(1)] w1(2) Save Some show ?thesis by (simp add: saves_def)
  qed
qed (auto simp: saves_def raised_def addArtistFactory_def addArtist_def resetAxes_def Let_def
      split: sum.splits)

lemma run_frame_counter:
  "frame_counter (run cs w) = frame_counter w + int (length (filter saves cs))"
proof (induction cs arbitrary: w)
  case Nil
  then show ?case by simp
next
  case (Cons c cs)
  from exec_frame_counter [of c w] Cons.IH [of "state_after (exec c w)"] show ?case by simp
qed

lemma run_artist_inv:
  assumes step: "\<And>a. P a \<Longrightarrow> P (mark_drawn a) \<and> P (deactivate a) \<and> (\<forall>a'. toggle a = Inr a' \<longrightarrow> P a')"
  shows "r < next_ref w \<Longrightarrow> P (heap w r) \<Longrightarrow> P (heap (run cs w) r)"
proof (induction cs arbitrary: w)
  case Nil
  then show ?case by simp
next
  case (Cons c cs)
  let ?w1 = "state_after (exec c w)"
  from exec_artist [OF Cons.prems(1), of c] step [OF Cons.prems(2)] Cons.prems
  have "r < next_ref ?w1" "P (heap ?w1 r)" by auto
  from Cons.IH [OF this] show ?case by simp
qed

lemma run_deactivated:
  "r < next_ref w \<Longrightarrow> deactivated (heap w r) \<Longrightarrow> deactivated (heap (run cs w) r)"
  by (rule run_artist_inv [where P = deactivated])
     (auto simp: deactivate_def toggle_def split: variant.splits)

lemma run_drawn:
  "r < next_ref w \<Longrightarrow> variant (heap w r) = OneTimeArtist True wh \<Longrightarrow>
   variant (heap (run cs w) r) = OneTimeArtist True wh"
  by (rule run_artist_inv [where P = "\<lambda>a. variant a = OneTimeArtist True wh"])
     (auto simp: deactivate_def toggle_def mark_drawn_def split: variant.splits)

lemma deactivated_inactive: "deactivated a \<Longrightarrow> \<not> isActive a f \<and> isDone a f"
  by (auto simp: isActive_def isDone_def split: variant.splits)

subsection \<open>Registration and the stable sort\<close>

lemma insort_key_agree:
  "f x = g x \<Longrightarrow> \<forall>y\<in>set ys. f y = g y \<Longrightarrow> insort_key f x ys = insort_key g x ys"
  by (induction ys) auto

lemma sort_key_agree:
  "\<forall>x\<in>set xs. f x = g x \<Longrightarrow> sort_key f xs = sort_key g xs"
proof (induction xs)
  case Nil
  then show ?case by simp
next
  case (Cons x xs)
  then have "sort_key f xs = sort_key g xs" by simp
  moreover have "insort_key f x (sort_key g xs) = insort_key g x (sort_key g xs)"
    using Cons.prems by (intro insort_key_agree) auto
  ultimately show ?case by simp
qed

lemma sort_key_presorted:
  "sort_key f (sort_key f xs @ ys) = sort_key f (xs @ ys)"
proof (rule sym, rule properties_for_sort_key)
  show "mset (sort_key f (sort_key f xs @ ys)) = mset (xs @ ys)" by simp
  show "sorted (map f (sort_key f (sort_key f xs @ ys)))" by simp
  fix k
  have "[x \<leftarrow> sort_key f (sort_key f xs @ ys). f x = f k] = [x \<leftarrow> sort_key f xs @ ys. f x = f k]"
    by (rule sort_key_stable)
  also have "\<dots> = [x \<leftarrow> xs @ ys. f x = f k]" by (simp add: sort_key_stable)
  finally show "[x \<leftarrow> sort_key f (sort_key f xs @ ys). f k = f x] = [x \<leftarrow> xs @ ys. f k = f x]"
    by (simp add: eq_commute)
qed

lemma run_layer:
  "r < next_ref w \<Longrightarrow> layer (heap (run cs w) r) = layer (heap w r)"
  by (rule run_artist_inv [where P = "\<lambda>a. layer a = layer (heap w r)"])
     (auto simp: deactivate_def toggle_def split: variant.splits)

lemma registered_sorted:
  assumes "registrations cs w"
    and "\<forall>r\<in>set (artists w). r < next_ref w"
    and "sorted (map (\<lambda>r. layer (heap w r)) (artists w))"
  shows "artists (run cs w)
       = sort_key (\<lambda>r. layer (heap (run cs w) r)) (artists w @ registered cs w)"
  using assms
proof (induction cs arbitrary: w)
  case Nil
  then show ?case by (simp add: sort_key_id_if_sorted)
next
  case (Cons c cs)
  from Cons.prems(1) have c: "registers (next_ref w) c"
    and cs: "registrations cs (run [c] w)" by simp_all
  have step: "artists (run cs w1)
       = sort_key (\<lambda>r. layer (heap (run cs w1) r)) ((artists w @ [x]) @ registered cs w1)"
    if ok: "registrations cs w1"
      and n: "next_ref w \<le> next_ref w1" and x: "x < next_ref w1"
      and a: "artists w1 = sort_key (\<lambda>r. layer (heap w1 r)) (artists w @ [x])"
    for w1 x
  proof -
    let ?L = "\<lambda>r. layer (heap (run cs w1) r)"
    have wf1: "\<forall>r\<in>set (artists w1). r < next_ref w1" using Cons.prems(2) n x by (auto simp: a)
    have "artists (run cs w1) = sort_key ?L (artists w1 @ registered cs w1)"
      using ok wf1 by (rule Cons.IH) (simp add: a)
    also have "artists w1 = sort_key ?L (artists w @ [x])"
      unfolding a by (rule sort_key_agree) (use Cons.prems(2) n x in \<open>auto simp: run_layer\<close>)
    finally show ?thesis by (simp only: sort_key_presorted)
  qed
  show ?case
  proof (cases c)
    case (New cl f kw rid)
    show ?thesis
    proof (cases "call_cls cl rid f kw")
      case (Inl e)
      with New cs Cons.IH [OF _ Cons.prems(2,3)] show ?thesis by simp
    next
      case (Inr a)
      with New cs have ok: "registrations cs (alloc a w)" by simp
      have wf1: "\<forall>r\<in>set (artists (alloc a w)). r < next_ref (alloc a w)"
        using Cons.prems(2) by auto
      have eq: "map (\<lambda>r. layer (heap (alloc a w) r)) (artists (alloc a w))
          = map (\<lambda>r. layer (heap w r)) (artists w)"
        using Cons.prems(2) by auto
      have "sorted (map (\<lambda>r. layer (heap (alloc a w) r)) (artists (alloc a w)))"
        unfolding eq by (rule Cons.prems(3))
      from Cons.IH [OF ok wf1 this] New Inr show ?thesis by simp
    qed
  next
    case (AddArtist r)
    with c have r: "r < next_ref w" by (simp add: registers_def)
    have "artists (run cs (addArtist r w))
       = sort_key (\<lambda>x. layer (heap (run cs (addArtist r w)) x))
           ((artists w @ [r]) @ registered cs (addArtist r w))"
      by (rule step) (use r cs AddArtist in \<open>simp_all add: addArtist_def Let_def\<close>)
    with AddArtist show ?thesis by simp
  next
    case (AddArtistFactory f cl kw rid)
    show ?thesis
    proof (cases "call_cls cl rid f kw")
      case (Inl e)
      with AddArtistFactory have "exec c w = Inl (e, w)"
        by (simp add: raised_def addArtistFactory_def)
      with AddArtistFactory cs Cons.IH [OF _ Cons.prems(2,3)] show ?thesis by simp
    next
      case (Inr a)
      let ?w0 = "alloc a w"
      let ?w1 = "?w0\<lparr>artists := sort_key (\<lambda>r. layer (heap ?w0 r)) (artists ?w0 @ [next_ref w])\<rparr>"
      from Inr AddArtistFactory have e: "exec c w = Inr ?w1"
        by (simp add: raised_def addArtistFactory_def Let_def)
      have "artists (run cs ?w1)
       = sort_key (\<lambda>r. layer (heap (run cs ?w1) r))
           ((artists w @ [next_ref w]) @ registered cs ?w1)"
        by (rule step) (use cs e in simp_all)
      with e AddArtistFactory show ?thesis by simp
    qed
  qed (use c in \<open>simp_all add: registers_def\<close>)
qed

subsection \<open>Errors, and repeated toggling\<close>

text \<open>
  The calls that can raise, and the world each leaves: the one before the call, and for a
  \<open>save\<close> whose file is not written the one after the draw pass.
\<close>

lemma exec_raises:
  assumes "exec c w = Inl (e, w')"
  shows "(\<exists>cl f kw rid. (c = New cl f kw rid \<or> c = AddArtistFactory f cl kw rid)
            \<and> call_cls cl rid f kw = Inl e \<and> w' = w)
       \<or> (\<exists>r. c = Toggle r \<and> toggle (heap w r) = Inl e \<and> w' = w)
       \<or> (\<exists>folder fname. c = Save folder fname (Some e) \<and> Canvas_draw w = Inr w')"
proof (cases c)
  case CanvasDraw
  with assms Canvas_draw_returns [of w] show ?thesis by (auto simp: raised_def)
next
  case Show
  with assms show_result [of w] show ?thesis by (auto simp: raised_def)
next
  case (Save folder fname res)
  show ?thesis
  proof (cases res)
    case None
    with Save assms save_result [of w folder fname] show ?thesis by auto
  next
    case (Some e')
    with Save assms save_result [of w folder fname e'] show ?thesis by auto
  qed
qed (use assms in \<open>auto simp: raised_def addArtistFactory_def Let_def split: sum.splits\<close>)

lemma toggles_state:
  "variant a = ToggledArtist st \<Longrightarrow> st = ''active'' \<or> st = ''inactive'' \<Longrightarrow>
   toggles n a = Inr (a\<lparr>variant := ToggledArtist
      (if even n then st else if st = ''inactive'' then ''active'' else ''inactive'')\<rparr>)"
proof (induction n arbitrary: a st)
  case 0
  then show ?case by simp
next
  case (Suc n)
  let ?st1 = "if st = ''inactive'' then ''active'' else ''inactive''"
  let ?a1 = "a\<lparr>variant := ToggledArtist ?st1\<rparr>"
  have t: "toggle a = Inr ?a1" using Suc.prems by (simp add: toggle_def)
  have "toggles n ?a1 = Inr (?a1\<lparr>variant := ToggledArtist
      (if even n then ?st1 else if ?st1 = ''inactive'' then ''active'' else ''inactive'')\<rparr>)"
    by (rule Suc.IH) (use Suc.prems in auto)
  with t Suc.prems show ?case by auto
qed

section \<open>The claims\<close>

text \<open>
  C1. One call of \<open>Canvas.draw\<close> goes through the managed artists in their current order,
  draws those that are active at the current frame, marks those that are done once they
  have been visited, and removes the marked ones after the pass. The drawing and the
  marking are so for every canvas. That the marked artists, and no others, are gone from
  the list afterwards holds when different managed artists have different identifiers
  (one artist may be registered more than once), and then a one-time artist that is due
  at the current frame and has not been deactivated is drawn and removed by the same
  call.
\<close>

theorem Canvas_draw_single_pass:
  "\<exists>w'. Canvas_draw w = Inr w'
     \<and> frame_counter w' = frame_counter w
     \<and> ax w' = fold (\<lambda>r. artist_factory (heap w r))
                 [r \<leftarrow> artists w. isActive (heap w r) (frame_counter w)] (ax w)
     \<and> plt w' = plt w @ replicate
                 (length [r \<leftarrow> artists w. isActive (heap w r) (frame_counter w)]) Plt_draw
     \<and> snd (draw_loop (artists w) w [])
         = [r \<leftarrow> artists w. isDone (heap w' r) (frame_counter w)]
     \<and> (inj_on (\<lambda>r. id_str (heap w r)) (set (artists w)) \<longrightarrow>
          artists w' = [r \<leftarrow> artists w. \<not> isDone (heap w' r) (frame_counter w)]
          \<and> (\<forall>r\<in>set (artists w). \<forall>d.
                variant (heap w r) = OneTimeArtist d (frame_counter w)
                \<and> \<not> deactivated (heap w r) \<longrightarrow>
                  r \<in> set [r \<leftarrow> artists w. isActive (heap w r) (frame_counter w)]
                  \<and> variant (heap w' r) = OneTimeArtist True (frame_counter w)
                  \<and> r \<notin> set (artists w')))"
proof -
  obtain w' where w': "Canvas_draw w = Inr w'" using Canvas_draw_returns by blast
  note res = Canvas_draw_result [OF w']
  note marked = marked_final [OF w']
  have rem: "artists w' = [r \<leftarrow> artists w. \<not> isDone (heap w' r) (frame_counter w)]"
    if d: "inj_on (\<lambda>r. id_str (heap w r)) (set (artists w))"
  proof -
    have "artists w' = [r \<leftarrow> artists w. \<not> done_after (heap w r) (frame_counter w)]"
      using d w' by (rule Canvas_draw_inj)
    also have "\<dots> = [r \<leftarrow> artists w. \<not> isDone (heap w' r) (frame_counter w)]"
      by (rule filter_cong) (auto simp: res(1) done_after_def)
    finally show ?thesis .
  qed
  have once: "r \<in> set [r \<leftarrow> artists w. isActive (heap w r) (frame_counter w)]
      \<and> variant (heap w' r) = OneTimeArtist True (frame_counter w) \<and> r \<notin> set (artists w')"
    if d: "inj_on (\<lambda>r. id_str (heap w r)) (set (artists w))"
      and r: "r \<in> set (artists w)"
      and v: "variant (heap w r) = OneTimeArtist d' (frame_counter w)"
      and n: "\<not> deactivated (heap w r)"
    for r d'
  proof -
    have act: "isActive (heap w r) (frame_counter w)" using v n by (simp add: isActive_def)
    with r v have var: "variant (heap w' r) = OneTimeArtist True (frame_counter w)"
      by (simp add: res(1) mark_drawn_def)
    then have "isDone (heap w' r) (frame_counter w)" by (simp add: isDone_def)
    with rem [OF d] have "r \<notin> set (artists w')" by simp
    with act r var show ?thesis by simp
  qed
  from w' res(2,3,4) marked rem once show ?thesis by blast
qed

text \<open>In \<open>twice\<close> the one-time artist is registered twice; it is drawn twice and both entries go.\<close>

theorem Canvas_draw_single_pass_witness:
  "inj_on (\<lambda>r. id_str (heap twice r)) (set (artists twice))
   \<and> artists twice = [0, 2, 2, 1]
   \<and> variant (heap twice 2) = OneTimeArtist False (frame_counter twice)
   \<and> \<not> deactivated (heap twice 2)
   \<and> (\<exists>w'. Canvas_draw twice = Inr w' \<and> 2 \<notin> set (artists w')
         \<and> variant (heap w' 2) = OneTimeArtist True (frame_counter twice))
   \<and> map_sum id artists (Canvas_draw twice) = Inr [0, 1]
   \<and> map_sum id (items \<circ> ax) (Canvas_draw twice) = Inr [''p'', ''o'', ''o'']"
proof -
  have h: "inj_on (\<lambda>r. id_str (heap twice r)) (set (artists twice))"
    "artists twice = [0, 2, 2, 1]"
    "variant (heap twice 2) = OneTimeArtist False (frame_counter twice)"
    "\<not> deactivated (heap twice 2)"
    by (simp_all add: twice_def world_defs)
  have e: "map_sum id artists (Canvas_draw twice) = Inr [0, 1]"
    "map_sum id (items \<circ> ax) (Canvas_draw twice) = Inr [''p'', ''o'', ''o'']"
    by (simp_all add: twice_def world_defs call_defs)
  have m: "2 \<in> set (artists twice)" by (simp add: h(2))
  from Canvas_draw_single_pass [of twice] h(1,3,4) m
  have "\<exists>w'. Canvas_draw twice = Inr w' \<and> 2 \<notin> set (artists w')
         \<and> variant (heap w' 2) = OneTimeArtist True (frame_counter twice)"
    by blast
  with h e show ?thesis by blast
qed

text \<open>
  Without these two conditions the last part fails. In \<open>collide\<close> the one-time artist is
  drawn and is still in the list afterwards, because the artist before it has the same
  identifier and is the one that \<open>list.remove\<close> deletes. In \<open>retired\<close> the one-time artist
  has been deactivated: it is removed and nothing is drawn.
\<close>

theorem Canvas_draw_single_pass_counterexample:
  "artists collide = [0, 1]
   \<and> id_str (heap collide 0) = id_str (heap collide 1)
   \<and> variant (heap collide 1) = OneTimeArtist False (frame_counter collide)
   \<and> \<not> deactivated (heap collide 1)
   \<and> map_sum id (items \<circ> ax) (Canvas_draw collide) = Inr [''p'', ''q'']
   \<and> map_sum id artists (Canvas_draw collide) = Inr [1]
   \<and> artists retired = [0]
   \<and> variant (heap retired 0) = OneTimeArtist False (frame_counter retired)
   \<and> deactivated (heap retired 0)
   \<and> items (ax retired) = []
   \<and> map_sum id (items \<circ> ax) (Canvas_draw retired) = Inr []
   \<and> map_sum id artists (Canvas_draw retired) = Inr []"
  by (simp add: collide_def retired_def world_defs call_defs)

text \<open>
  C2. A \<open>TimedArtist\<close> with window \<open>[start, end]\<close> is active at frame \<open>f\<close> iff
  \<open>start \<le> f \<le> end\<close> and it is not deactivated, and done iff \<open>f > end\<close> or it is
  deactivated. The constructor takes any two frames and raises nothing; with
  \<open>end < start\<close> the artist is active at no frame.
\<close>

theorem TimedArtist_window:
  assumes "variant a = TimedArtist start end_fr"
  shows "(isActive a f \<longleftrightarrow> start \<le> f \<and> f \<le> end_fr \<and> \<not> deactivated a)
       \<and> (isDone a f \<longleftrightarrow> f > end_fr \<or> deactivated a)
       \<and> (end_fr < start \<longrightarrow> \<not> isActive a f)
       \<and> call_cls TimedArtistC rid cb
            \<lparr>kw_layer = lay, kw_start = Some start, kw_end = Some end_fr, kw_state = None,
             kw_when = None, kw_other = []\<rparr>
          = Inr (TimedArtist_init rid cb start end_fr (or_default 0 lay))
       \<and> variant (TimedArtist_init rid cb start end_fr l) = TimedArtist start end_fr"
  using assms by (auto simp: isActive_def isDone_def call_cls_def TimedArtist_init_def)

theorem TimedArtist_window_witness:
  "variant (TimedArtist_init ''qwertyuiop'' (line_cb ''t'') 5 3 0) = TimedArtist 5 3
   \<and> (3::int) < 5
   \<and> \<not> isActive (TimedArtist_init ''qwertyuiop'' (line_cb ''t'') 5 3 0) 4
   \<and> isDone (TimedArtist_init ''qwertyuiop'' (line_cb ''t'') 5 3 0) 4
   \<and> \<not> isDone (TimedArtist_init ''qwertyuiop'' (line_cb ''t'') 5 3 0) 3"
proof -
  let ?a = "TimedArtist_init ''qwertyuiop'' (line_cb ''t'') 5 3 0"
  have v: "variant ?a = TimedArtist 5 3" by (simp add: TimedArtist_init_def)
  from TimedArtist_window [OF v, of 4 "''qwertyuiop''" "line_cb ''t''" None 0]
    TimedArtist_window [OF v, of 3 "''qwertyuiop''" "line_cb ''t''" None 0] v
  show ?thesis by (simp add: TimedArtist_init_def Artist_init_def)
qed

text \<open>
  C3. Once \<open>deactivate\<close> has been called on an artist, of whichever class, the artist is
  active at no frame and done at every frame, whatever calls follow: no call clears the
  flag.
\<close>

theorem deactivate_permanent:
  assumes "r < next_ref w"
  shows "deactivated (heap (run cs (run [Deactivate r] w)) r)
       \<and> \<not> isActive (heap (run cs (run [Deactivate r] w)) r) f
       \<and> isDone (heap (run cs (run [Deactivate r] w)) r) f"
proof -
  let ?w1 = "run [Deactivate r] w"
  have "r < next_ref ?w1" "deactivated (heap ?w1 r)" using assms by (simp_all add: deactivate_def)
  then have "deactivated (heap (run cs ?w1) r)" by (rule run_deactivated)
  then show ?thesis using deactivated_inactive by blast
qed

theorem deactivate_permanent_witness:
  "1 < next_ref two
   \<and> \<not> isActive (heap (run (ex_regs @ [Toggle 1, Save ''out'' ''test'' None, Draw 1])
                          (run [Deactivate 1] two)) 1) 2
   \<and> isDone (heap (run (ex_regs @ [Toggle 1, Save ''out'' ''test'' None, Draw 1])
                     (run [Deactivate 1] two)) 1) 2"
proof -
  have h: "1 < next_ref two" by (simp add: two_def)
  from deactivate_permanent [OF h] h show ?thesis by blast
qed

text \<open>
  C4. A \<open>OneTimeArtist\<close> with \<open>when = wh\<close> that has not been deactivated is active at the
  frame \<open>wh\<close> and at no other. Before its \<open>draw\<close> it is done only if it has been drawn
  already, so a new one is not done; after its \<open>draw\<close> it is done at once, at the same
  frame counter, and it stays done whatever calls follow: \<open>drawn\<close> is set for good.
\<close>

theorem OneTimeArtist_once:
  assumes "variant (heap w r) = OneTimeArtist d wh" and "\<not> deactivated (heap w r)"
  shows "(isActive (heap w r) f \<longleftrightarrow> f = wh)
       \<and> (isDone (heap w r) f \<longleftrightarrow> d)
       \<and> variant (OneTimeArtist_init rid cb wh lay) = OneTimeArtist False wh
       \<and> \<not> deactivated (OneTimeArtist_init rid cb wh lay)
       \<and> \<not> isDone (OneTimeArtist_init rid cb wh lay) f
       \<and> variant (heap (draw_at r w) r) = OneTimeArtist True wh
       \<and> isDone (heap (draw_at r w) r) wh
       \<and> frame_counter (draw_at r w) = frame_counter w
       \<and> (r < next_ref w \<longrightarrow> isDone (heap (run cs (draw_at r w)) r) g)"
proof -
  have v: "variant (heap (draw_at r w) r) = OneTimeArtist True wh"
    using assms(1) by (simp add: mark_drawn_def)
  have "isDone (heap (run cs (draw_at r w)) r) g" if "r < next_ref w"
  proof -
    from that have "r < next_ref (draw_at r w)" by simp
    from run_drawn [OF this v] show ?thesis by (simp add: isDone_def)
  qed
  with assms v show ?thesis
    by (simp add: isActive_def isDone_def OneTimeArtist_init_def Artist_init_def)
qed

theorem OneTimeArtist_once_witness:
  "variant (heap scene 2) = OneTimeArtist False 1 \<and> \<not> deactivated (heap scene 2)
   \<and> 2 < next_ref scene
   \<and> isActive (heap scene 2) 1 \<and> \<not> isActive (heap scene 2) 2
   \<and> \<not> isDone (heap scene 2) 1
   \<and> isDone (heap (draw_at 2 scene) 2) 1
   \<and> isDone (heap (run [Save ''out'' ''test'' None, Toggle 2, Show] (draw_at 2 scene)) 2) 7"
proof -
  have h: "variant (heap scene 2) = OneTimeArtist False 1" "\<not> deactivated (heap scene 2)"
    "2 < next_ref scene"
    by (simp_all add: scene_def world_defs)
  from OneTimeArtist_once [OF h(1,2), of 1 "''cccccccccc''" "line_cb ''o''" 0
      "[Save ''out'' ''test'' None, Toggle 2, Show]" 7]
    OneTimeArtist_once [OF h(1,2), of 2 "''cccccccccc''" "line_cb ''o''" 0 "[]" 7] h
  show ?thesis by (simp del: run.simps)
qed

text \<open>
  C5. After any sequence of registrations (\<open>addArtist\<close>, \<open>addArtistFactory\<close>) the list
  that \<open>getAllArtists\<close> returns is in ascending order of layer, in whichever order the
  artists were registered, and it holds the artists of one layer in the order of their
  registration. The canvas before the registrations is any canvas whose list is in order
  of layer, a new canvas among them.
\<close>

theorem register_sorted_stable:
  assumes "registrations cs w"
    and "\<forall>r\<in>set (artists w). r < next_ref w"
    and "sorted (map (\<lambda>r. layer (heap w r)) (artists w))"
  shows "getAllArtists False (run cs w) = Refs (artists (run cs w))
       \<and> sorted (map (\<lambda>r. layer (heap (run cs w) r)) (artists (run cs w)))
       \<and> mset (artists (run cs w)) = mset (artists w @ registered cs w)
       \<and> [r \<leftarrow> artists (run cs w). layer (heap (run cs w) r) = k]
           = [r \<leftarrow> artists w @ registered cs w. layer (heap (run cs w) r) = k]"
proof -
  have "artists (run cs w)
       = sort_key (\<lambda>r. layer (heap (run cs w) r)) (artists w @ registered cs w)"
    using assms by (rule registered_sorted)
  then show ?thesis
    by (simp add: getAllArtists_def sort_key_stable del: filter_append)
qed

theorem register_sorted_stable_witness:
  "registrations ex_regs two
   \<and> list_all (\<lambda>r. r < next_ref two) (artists two)
   \<and> sorted (map (\<lambda>r. layer (heap two r)) (artists two))
   \<and> registered ex_regs two = [0, 3, 1, 4, 2]
   \<and> map (\<lambda>r. layer (heap (run ex_regs two) r)) [0, 3, 1, 4, 2] = [2, 1, 0, 0, 0]
   \<and> getAllArtists False (run ex_regs two) = Refs [1, 4, 2, 3, 0]
   \<and> sorted (map (\<lambda>r. layer (heap (run ex_regs two) r)) (artists (run ex_regs two)))
   \<and> [r \<leftarrow> artists (run ex_regs two). layer (heap (run ex_regs two) r) = 0] = [1, 4, 2]"
proof -
  have h: "registrations ex_regs two"
    "\<forall>r\<in>set (artists two). r < next_ref two"
    "sorted (map (\<lambda>r. layer (heap two r)) (artists two))"
    by (simp_all add: ex_regs_def two_def registers_def world_defs call_defs)
  have e: "registered ex_regs two = [0, 3, 1, 4, 2]"
    "map (\<lambda>r. layer (heap (run ex_regs two) r)) [0, 3, 1, 4, 2] = [2, 1, 0, 0, 0]"
    "artists (run ex_regs two) = [1, 4, 2, 3, 0]"
    by (simp_all add: ex_regs_def two_def world_defs call_defs)
  from register_sorted_stable [OF h, of 0] h e show ?thesis
    by (simp add: list_all_iff)
qed

text \<open>
  C6. The frame counter of a new canvas is 1. \<open>Canvas.save\<close> runs the draw pass, saves the
  figure under \<open>folder/fname_n\<close> with \<open>n\<close> the counter before the call, resets the axes and
  then adds one to the counter; when \<open>savefig\<close> raises, the call ends there, after the draw
  pass, with the counter as it was. \<open>Canvas.show\<close> and every other call leave the counter
  as it is, so over any sequence of calls the counter grows by the number of \<open>save\<close> calls
  that wrote their file and never decreases.
\<close>

theorem frame_counter_only_save:
  "map_sum id frame_counter (Canvas_init figure_raises h n lib width height xl yl dpi)
     = (if width < 0 \<or> height < 0 then Inl ValueError
        else case figure_raises of None \<Rightarrow> Inr 1 | Some e \<Rightarrow> Inl e)
   \<and> (\<exists>w1. Canvas_draw w = Inr w1
         \<and> frame_counter w1 = frame_counter w
         \<and> save None folder fname w =
             Inr (w1\<lparr>plt := plt w1 @
                        [Savefig (folder @ ''/'' @ fname @ ''_'' @ str_int (frame_counter w))
                           (ax w1)],
                     ax := \<lparr>items = [], xlim = xlims w, ylim = ylims w\<rparr>,
                     frame_counter := frame_counter w + 1\<rparr>)
         \<and> save (Some e) folder fname w = Inl (e, w1)
         \<and> show w = Inr (w1\<lparr>plt := plt w1 @ [Plt_show]\<rparr>))
   \<and> frame_counter (state_after (exec c w))
       = (if saves c then frame_counter w + 1 else frame_counter w)
   \<and> frame_counter (run cs w) = frame_counter w + int (length (filter saves cs))
   \<and> frame_counter w \<le> frame_counter (run cs w)"
proof -
  obtain w1 where w1: "Canvas_draw w = Inr w1"
     "save None folder fname w =
       Inr (w1\<lparr>plt := plt w1 @ [Savefig (folder @ ''/'' @ fname @ ''_'' @ str_int (frame_counter w)) (ax w1)],
               ax := \<lparr>items = [], xlim = xlims w, ylim = ylims w\<rparr>,
               frame_counter := frame_counter w + 1\<rparr>)"
     "save (Some e) folder fname w = Inl (e, w1)"
    using save_result by blast
  from w1(1) show_result [of w] have sh: "show w = Inr (w1\<lparr>plt := plt w1 @ [Plt_show]\<rparr>)"
    by auto
  have "map_sum id frame_counter (Canvas_init figure_raises h n lib width height xl yl dpi)
     = (if width < 0 \<or> height < 0 then Inl ValueError
        else case figure_raises of None \<Rightarrow> Inr 1 | Some e \<Rightarrow> Inl e)"
    by (simp add: Canvas_init_def split: option.splits)
  with w1 sh Canvas_draw_result(4) [OF w1(1)] exec_frame_counter [of c w]
    run_frame_counter [of cs w]
  show ?thesis by auto
qed

theorem frame_counter_only_save_witness:
  "Canvas_init None (heap blank) 0 [] 5 5 (0, 10) (0, 10) 100 = Inr blank
   \<and> map_sum id frame_counter
       (Canvas_init None (heap blank) 0 ([] :: string event list) (- 1) 5
          (0, 10) (0, 10) 100) = Inl ValueError
   \<and> frame_counter scene = 1
   \<and> frame_counter (run [Save ''out'' ''test'' None, Show, Toggle 0,
                          Save ''no_such_dir'' ''test'' (Some OSError),
                          Save ''out'' ''test'' None] scene) = 3
   \<and> last (plt (run [Save ''out'' ''test'' None] scene))
       = Savefig ''out/test_1'' \<lparr>items = [''p'', ''o''], xlim = (0, 10), ylim = (0, 10)\<rparr>
   \<and> items (ax (run [Save ''out'' ''test'' None] scene)) = []
   \<and> frame_counter (run [Save ''no_such_dir'' ''test'' (Some OSError)] scene) = 1
   \<and> items (ax (run [Save ''no_such_dir'' ''test'' (Some OSError)] scene)) = [''p'', ''o'']
   \<and> artists (run [Save ''no_such_dir'' ''test'' (Some OSError)] scene) = [0, 1]"
proof -
  have a: "frame_counter scene = 1" by (simp add: scene_def world_defs)
  have b: "last (plt (run [Save ''out'' ''test'' None] scene))
       = Savefig ''out/test_1'' \<lparr>items = [''p'', ''o''], xlim = (0, 10), ylim = (0, 10)\<rparr>"
    "items (ax (run [Save ''out'' ''test'' None] scene)) = []"
    "frame_counter (run [Save ''no_such_dir'' ''test'' (Some OSError)] scene) = 1"
    "items (ax (run [Save ''no_such_dir'' ''test'' (Some OSError)] scene)) = [''p'', ''o'']"
    "artists (run [Save ''no_such_dir'' ''test'' (Some OSError)] scene) = [0, 1]"
    by (simp_all add: scene_def world_defs call_defs)
  have c: "Canvas_init None (heap blank) 0 [] 5 5 (0, 10) (0, 10) 100 = Inr blank"
    by (simp add: Canvas_init_def blank_def)
  let ?cs = "[Save ''out'' ''test'' None, Show, Toggle 0,
              Save ''no_such_dir'' ''test'' (Some OSError),
              Save ''out'' ''test'' None] :: string op list"
  from frame_counter_only_save
    [of None "heap blank" 0 "[] :: string event list" "- 1" 5 "(0, 10)" "(0, 10)" 100
        scene "''out''" "''test''" OSError Show ?cs]
  have d: "map_sum id frame_counter
       (Canvas_init None (heap blank) 0 ([] :: string event list) (- 1) 5
          (0, 10) (0, 10) 100) = Inl ValueError"
    and "frame_counter (run ?cs scene) = frame_counter scene + int (length (filter saves ?cs))"
    by simp_all
  with a have "frame_counter (run ?cs scene) = 3"
    by (simp add: saves_def del: run.simps)
  with a b c d show ?thesis by blast
qed

text \<open>
  C7. On a \<open>ToggledArtist\<close> whose state is \<open>active\<close> or \<open>inactive\<close>, \<open>toggle\<close> changes the
  state to the other of the two. Two calls give back the artist as it was, \<open>n\<close> calls
  from the constructed state leave it there when \<open>n\<close> is even and at the other state when
  \<open>n\<close> is odd, and on an artist that is not deactivated each call changes what \<open>isActive\<close>
  returns.
\<close>

theorem toggle_flips:
  assumes "variant a = ToggledArtist st" and "st = ''active'' \<or> st = ''inactive''"
  shows "toggle a
           = Inr (a\<lparr>variant := ToggledArtist (if st = ''active'' then ''inactive'' else ''active'')\<rparr>)
       \<and> (\<forall>a1. toggle a = Inr a1 \<longrightarrow> toggle a1 = Inr a)
       \<and> (\<forall>a1 f. toggle a = Inr a1 \<longrightarrow> \<not> deactivated a \<longrightarrow> isActive a1 f = (\<not> isActive a f))
       \<and> toggles n a = Inr (a\<lparr>variant := ToggledArtist
             (if even n then st else if st = ''active'' then ''inactive'' else ''active'')\<rparr>)
       \<and> variant (ToggledArtist_init rid cb st lay) = ToggledArtist st"
  using assms toggles_state [OF assms, of n]
  by (auto simp: toggle_def isActive_def ToggledArtist_init_def)

theorem toggle_flips_witness:
  "variant (ToggledArtist_init ''bbbbbbbbbb'' (line_cb ''q'') ''inactive'' 0)
     = ToggledArtist ''inactive''
   \<and> map_sum id variant (toggle (ToggledArtist_init ''bbbbbbbbbb'' (line_cb ''q'') ''inactive'' 0))
       = Inr (ToggledArtist ''active'')
   \<and> map_sum id variant (toggles 3 (ToggledArtist_init ''bbbbbbbbbb'' (line_cb ''q'') ''inactive'' 0))
       = Inr (ToggledArtist ''active'')
   \<and> map_sum id variant (toggles 2 (ToggledArtist_init ''bbbbbbbbbb'' (line_cb ''q'') ''inactive'' 0))
       = Inr (ToggledArtist ''inactive'')"
proof -
  let ?a = "ToggledArtist_init ''bbbbbbbbbb'' (line_cb ''q'') ''inactive'' 0"
  have v: "variant ?a = ToggledArtist ''inactive''" by (simp add: ToggledArtist_init_def)
  have s: "''inactive'' = ''active'' \<or> ''inactive'' = ''inactive''" by simp
  from toggle_flips [OF v s, of 3 "''bbbbbbbbbb''" "line_cb ''q''" 0]
    toggle_flips [OF v s, of 2 "''bbbbbbbbbb''" "line_cb ''q''" 0] v
  show ?thesis by simp
qed

text \<open>
  C8. Two artists are equal iff their identifiers are equal, whatever else they hold.
  Comparing an artist with an object that has no \<open>id\<close> attribute raises
  \<open>AttributeError\<close>; it does not return \<open>False\<close>.
\<close>

theorem eq_by_id:
  "artist_eq a (ArtistObj b) = Inr (id_str a = id_str b)
   \<and> (map_of attrs ''id'' = None \<longrightarrow> artist_eq a (Object attrs) = Inl AttributeError)"
  by (simp add: artist_eq_def getattr_id_def)

theorem eq_by_id_witness:
  "map_of [(''real'', PyInt 5), (''imag'', PyInt 0)] ''id'' = None
   \<and> artist_eq (Artist_init ''aaaaaaaaaa'' (line_cb ''p'') 0)
        (Object [(''real'', PyInt 5), (''imag'', PyInt 0)]) = Inl AttributeError
   \<and> artist_eq (Artist_init ''aaaaaaaaaa'' (line_cb ''p'') 0)
        (ArtistObj (deactivate (OneTimeArtist_init ''aaaaaaaaaa'' (line_cb ''q'') 7 3))) = Inr True
   \<and> artist_eq (Artist_init ''aaaaaaaaaa'' (line_cb ''p'') 0)
        (ArtistObj (Artist_init ''aaaaaaaaab'' (line_cb ''p'') 0)) = Inr False"
proof -
  have h: "map_of [(''real'', PyInt 5), (''imag'', PyInt 0)] ''id'' = None" by simp
  from eq_by_id [of "Artist_init ''aaaaaaaaaa'' (line_cb ''p'') 0"
      "deactivate (OneTimeArtist_init ''aaaaaaaaaa'' (line_cb ''q'') 7 3)"
      "[(''real'', PyInt 5), (''imag'', PyInt 0)]"]
    eq_by_id [of "Artist_init ''aaaaaaaaaa'' (line_cb ''p'') 0"
      "Artist_init ''aaaaaaaaab'' (line_cb ''p'') 0" "[]"] h
  show ?thesis
    by (simp add: Artist_init_def OneTimeArtist_init_def deactivate_def)
qed

text \<open>
  C9. When the managed artists have pairwise different identifiers, one call of
  \<open>Canvas.draw\<close> removes the artists that it marked, which are those that were done when
  the pass visited them, and no others, and the artists that stay keep their order. The
  removal is by \<open>list.remove\<close>, which deletes the first element with an equal identifier:
  in \<open>twins\<close>, where two artists share one, it is the artist that is not done that goes.
\<close>

theorem Canvas_draw_removes_done:
  "(distinct (map (\<lambda>r. id_str (heap w r)) (artists w)) \<longrightarrow>
      (\<exists>w'. Canvas_draw w = Inr w'
         \<and> snd (draw_loop (artists w) w [])
             = [r \<leftarrow> artists w.
                  isDone (if isActive (heap w r) (frame_counter w)
                          then fst (draw (heap w r) axs lib) else heap w r) (frame_counter w)]
         \<and> artists w' = [r \<leftarrow> artists w. r \<notin> set (snd (draw_loop (artists w) w []))]
         \<and> subseq (artists w') (artists w)))
   \<and> artists twins = [0, 1]
   \<and> id_str (heap twins 0) = id_str (heap twins 1)
   \<and> \<not> isDone (heap twins 0) (frame_counter twins)
   \<and> isDone (heap twins 1) (frame_counter twins)
   \<and> map_sum id artists (Canvas_draw twins) = Inr [1]"
proof -
  have gen: "\<exists>w'. Canvas_draw w = Inr w'
         \<and> snd (draw_loop (artists w) w [])
             = [r \<leftarrow> artists w.
                  isDone (if isActive (heap w r) (frame_counter w)
                          then fst (draw (heap w r) axs lib) else heap w r) (frame_counter w)]
         \<and> artists w' = [r \<leftarrow> artists w. r \<notin> set (snd (draw_loop (artists w) w []))]
         \<and> subseq (artists w') (artists w)"
    if d: "distinct (map (\<lambda>r. id_str (heap w r)) (artists w))"
  proof -
    obtain w' where w': "Canvas_draw w = Inr w'" using Canvas_draw_returns by blast
    obtain w1 up where dl: "draw_loop (artists w) w [] = (w1, up)"
      by (cases "draw_loop (artists w) w []")
    have m: "snd (draw_loop (artists w) w [])
             = [r \<leftarrow> artists w.
                  isDone (if isActive (heap w r) (frame_counter w)
                          then fst (draw (heap w r) axs lib) else heap w r) (frame_counter w)]"
      using draw_loop_marked [OF dl] dl by (simp add: done_after_def draw_parts if_distrib)
    have a: "artists w' = [r \<leftarrow> artists w. r \<notin> set (snd (draw_loop (artists w) w []))]"
      using d w' by (rule Canvas_draw_distinct)
    then have "subseq (artists w') (artists w)" by simp
    with w' m a show ?thesis by blast
  qed
  have "artists twins = [0, 1]" "id_str (heap twins 0) = id_str (heap twins 1)"
    "\<not> isDone (heap twins 0) (frame_counter twins)" "isDone (heap twins 1) (frame_counter twins)"
    "map_sum id artists (Canvas_draw twins) = Inr [1]"
    by (simp_all add: twins_def world_defs call_defs)
  with gen show ?thesis by blast
qed

theorem Canvas_draw_removes_done_witness:
  "distinct (map (\<lambda>r. id_str (heap scene r)) (artists scene))
   \<and> snd (draw_loop (artists scene) scene []) = [2]
   \<and> (\<exists>w'. Canvas_draw scene = Inr w' \<and> artists w' = [0, 1] \<and> subseq (artists w') (artists scene))"
proof -
  have d: "distinct (map (\<lambda>r. id_str (heap scene r)) (artists scene))"
    by (simp add: scene_def world_defs)
  have m: "snd (draw_loop (artists scene) scene []) = [2]" "artists scene = [0, 2, 1]"
    by (simp_all add: scene_def world_defs call_defs)
  from Canvas_draw_removes_done [of scene "ax scene" "plt scene"] d obtain w' where
    "Canvas_draw scene = Inr w'"
    "artists w' = [r \<leftarrow> artists scene. r \<notin> set (snd (draw_loop (artists scene) scene []))]"
    "subseq (artists w') (artists scene)"
    by blast
  with d m show ?thesis by simp
qed

text \<open>
  C10. \<open>OneTimeArtist.isActive\<close> does not read \<open>drawn\<close>. \<open>draw\<close> sets \<open>drawn\<close> and leaves
  \<open>deactivated\<close> as it was, so after the draw an artist that was not deactivated is still
  active at its frame, and a second \<open>draw\<close> calls the callback again. That the artist is
  drawn once is the work of the canvas, which removes it because it is done.
\<close>

theorem OneTimeArtist_isActive_ignores_drawn:
  assumes "variant a = OneTimeArtist d wh"
  shows "isActive (a\<lparr>variant := OneTimeArtist d' wh\<rparr>) f = isActive a f
       \<and> variant (fst (draw a axs lib)) = OneTimeArtist True wh
       \<and> deactivated (fst (draw a axs lib)) = deactivated a
       \<and> isActive (fst (draw a axs lib)) f = isActive a f
       \<and> (\<not> deactivated a \<longrightarrow> isActive (fst (draw a axs lib)) wh)
       \<and> isDone (fst (draw a axs lib)) f
       \<and> fst (snd (draw (fst (draw a axs lib)) (fst (snd (draw a axs lib))) lib'))
           = artist_factory a (artist_factory a axs)"
  using assms by (simp add: draw_def isActive_def isDone_def)

theorem OneTimeArtist_isActive_ignores_drawn_witness:
  "variant (OneTimeArtist_init ''cccccccccc'' (line_cb ''o'') 4 0) = OneTimeArtist False 4
   \<and> \<not> deactivated (OneTimeArtist_init ''cccccccccc'' (line_cb ''o'') 4 0)
   \<and> isActive (fst (draw (OneTimeArtist_init ''cccccccccc'' (line_cb ''o'') 4 0) (ax blank) [])) 4
   \<and> isDone (fst (draw (OneTimeArtist_init ''cccccccccc'' (line_cb ''o'') 4 0) (ax blank) [])) 4
   \<and> items (fst (snd (draw (fst (draw (OneTimeArtist_init ''cccccccccc'' (line_cb ''o'') 4 0)
                                  (ax blank) []))
                        (fst (snd (draw (OneTimeArtist_init ''cccccccccc'' (line_cb ''o'') 4 0)
                                    (ax blank) []))) [])))
       = [''o'', ''o'']"
proof -
  let ?a = "OneTimeArtist_init ''cccccccccc'' (line_cb ''o'') 4 0"
  have h: "variant ?a = OneTimeArtist False 4" "\<not> deactivated ?a"
    by (simp_all add: OneTimeArtist_init_def Artist_init_def)
  have af: "artist_factory ?a = line_cb ''o''" by (simp add: OneTimeArtist_init_def Artist_init_def)
  from OneTimeArtist_isActive_ignores_drawn [OF h(1), of True 4 "ax blank" "[]" "[]"] h af
  show ?thesis
    by (simp add: line_cb_def blank_def isActive_def OneTimeArtist_init_def Artist_init_def)
qed

end
